theory Spec2Isabelle
  imports Complex_Main "HOL-Library.AList"
begin

section \<open>QwertyPiano: a shallow embedding of \<^verbatim>\<open>src/QwertyPiano.tsx\<close>\<close>

text \<open>
  The component keeps its data in React state (\<^verbatim>\<open>useState\<close>) and in refs
  (\<^verbatim>\<open>useRef\<close>). Both are fields of one record \<open>piano\<close>; every handler of the
  source becomes a function from \<open>piano\<close> to \<open>piano\<close>. JavaScript numbers are modelled
  as \<open>int\<close> where the source only ever holds integers (octave, MIDI number, semitone
  offset). A frequency is the IEEE double that the source computes: a finite double is
  a real number, and every operation rounds its exact result to the nearest double.
  Volumes and clock readings are \<open>real\<close> and their arithmetic is exact. Strings are
  \<open>string\<close>; \<^verbatim>\<open>toUpperCase\<close> is modelled on ASCII, which covers every key of
  \<^verbatim>\<open>KEY_TO_OFFSET\<close>.
  The readings of \<^verbatim>\<open>performance.now()\<close> are inputs of the functions that read
  the clock, one argument per call of the source.

  A handler of the source reads the React state of the render that created it. The
  keyboard handlers are registered again after every change of \<^verbatim>\<open>isRecording\<close>,
  \<^verbatim>\<open>waveform\<close>, \<^verbatim>\<open>volume\<close>, \<^verbatim>\<open>sustain\<close> or \<^verbatim>\<open>octave\<close> (line 251), so each
  function below reads the state it is applied to. Creating the \<^verbatim>\<open>AudioContext\<close> is
  taken to succeed.
\<close>

subsection \<open>Key table and pitch\<close>

definition upper_char :: "char \<Rightarrow> char" where
  "upper_char c =
     (let n = (of_char c :: nat)
      in if 97 \<le> n \<and> n \<le> 122 then char_of (n - 32) else c)"

definition toUpperCase :: "string \<Rightarrow> string" where
  "toUpperCase s = map upper_char s"

text \<open>
  \<^verbatim>\<open>KEY_TO_OFFSET\<close>, lines 20-39. A lookup that yields \<^verbatim>\<open>undefined\<close> is \<open>None\<close>.
  The source looks up upper-cased strings only (lines 165, 230, 238), and the name of
  every property that the object inherits contains a lower-case letter, so the
  table's own entries are all a lookup can find.
\<close>

definition KEY_TO_OFFSET :: "string \<Rightarrow> int option" where
  "KEY_TO_OFFSET = map_of
     [(''A'', 0), (''W'', 1), (''S'', 2), (''E'', 3), (''D'', 4), (''F'', 5),
      (''T'', 6), (''G'', 7), (''Y'', 8), (''H'', 9), (''U'', 10), (''J'', 11),
      (''K'', 12), (''O'', 13), (''L'', 14), (''P'', 15), ('';'', 16),
      ([CHR 0x27], 17)]"

subsection \<open>Double arithmetic\<close>

text \<open>
  Rounding to the nearest integer, ties to the even one.
\<close>

definition round_half_even :: "real \<Rightarrow> int" where
  "round_half_even y =
     (let f = \<lfloor>y\<rfloor>; d = y - of_int f
      in if d < 1 / 2 then f
         else if 1 / 2 < d then f + 1
         else if even f then f else f + 1)"

text \<open>
  The double nearest to a real number (IEEE 754 binary64, round to nearest, ties to
  even): 53 significant bits, so the doubles between \<open>2 ^ e\<close> and \<open>2 ^ (e + 1)\<close> are
  \<open>2 powr (e - 52)\<close> apart, and below \<open>2 powr (- 1022)\<close> they keep the spacing of the
  smallest exponent. Overflow to infinity is left out: the numbers of this program
  stay far below the largest double.
\<close>

definition binary64 :: "real \<Rightarrow> real" where
  "binary64 x =
     (if x = 0 then 0
      else let e = max \<lfloor>log 2 \<bar>x\<bar>\<rfloor> (- 1022);
               u = 2 powr (of_int e - 52)
           in of_int (round_half_even (x / u)) * u)"

text \<open>
  The operations of line 42 on doubles. Division and multiplication are rounded
  exactly as IEEE 754 prescribes. ECMAScript asks of \<^verbatim>\<open>Math.pow\<close> an approximation of
  the power and fixes no rounding; \<open>Math_pow\<close> returns the double nearest to the exact
  power, for a positive base as here.
\<close>

definition double_div :: "real \<Rightarrow> real \<Rightarrow> real" where
  "double_div a b = binary64 (a / b)"

definition double_mult :: "real \<Rightarrow> real \<Rightarrow> real" where
  "double_mult a b = binary64 (a * b)"

definition Math_pow :: "real \<Rightarrow> real \<Rightarrow> real" where
  "Math_pow a b = binary64 (a powr b)"

text \<open>
  \<^verbatim>\<open>midiToFreq\<close>, line 42: \<^verbatim>\<open>440 * Math.pow(2, (midi - 69) / 12)\<close>. The difference
  \<^verbatim>\<open>midi - 69\<close> of two small integers is exact.
\<close>

definition midiToFreq :: "int \<Rightarrow> real" where
  "midiToFreq midi = double_mult 440 (Math_pow 2 (double_div (real_of_int midi - 69) 12))"

subsection \<open>Voices\<close>

datatype OscillatorType = Sine | Square | Sawtooth | Triangle | Custom

text \<open>
  A \<^verbatim>\<open>Voice\<close> object (lines 53-125). The oscillator frequency and types and the two
  targets of the envelope ramps are what the constructor writes into the audio nodes;
  \<open>release_scheduled\<close> says that \<^verbatim>\<open>release\<close> has scheduled the ramp down to
  \<^verbatim>\<open>0.0001\<close> together with its \<^verbatim>\<open>setTimeout\<close>; \<open>ended\<close> is the field of the class.
\<close>

record Voice =
  osc_freq :: real
  osc1_type :: OscillatorType
  osc2_type :: OscillatorType
  gain_peak :: real
  gain_sustain :: real
  release_scheduled :: bool
  ended :: bool

definition new_Voice :: "real \<Rightarrow> OscillatorType \<Rightarrow> real \<Rightarrow> Voice" where
  "new_Voice fr wave vol =
     \<lparr> osc_freq = fr,
       osc1_type = wave,
       osc2_type = (if wave = Sine then Triangle else wave),
       gain_peak = vol,
       gain_sustain = vol * 0.22,
       release_scheduled = False,
       ended = False \<rparr>"

subsection \<open>Recorded events\<close>

datatype transition = Down | Up

text \<open>
  An element of \<^verbatim>\<open>recording\<close>: \<^verbatim>\<open>{ key, type, t }\<close>, plus the property
  \<^verbatim>\<open>__scheduled\<close> that \<^verbatim>\<open>playRecording\<close> adds to the object; \<open>None\<close> is
  \<^verbatim>\<open>undefined\<close>.
\<close>

record RecordedEvent =
  ev_key :: string
  ev_type :: transition
  ev_t :: real
  ev_scheduled :: "bool option"

subsection \<open>Component state\<close>

text \<open>
  \<open>heap\<close> holds the \<^verbatim>\<open>Voice\<close> objects by address and \<open>next_voice\<close> is the next
  fresh address; \<open>activeVoices\<close> is the \<^verbatim>\<open>Map<string, Voice>\<close> in insertion order,
  holding addresses; \<open>timers\<close> lists the voices whose \<^verbatim>\<open>setTimeout(() => this.stop())\<close>
  is pending. \<open>ctxRef\<close> says whether \<^verbatim>\<open>ctxRef.current\<close> (and with it
  \<^verbatim>\<open>masterRef.current\<close>) has been created.
\<close>

record piano =
  octave :: int
  sustain :: bool
  volume :: real
  waveform :: OscillatorType
  armed :: bool
  ctxRef :: bool
  heap :: "nat \<Rightarrow> Voice option"
  next_voice :: nat
  activeVoices :: "(string \<times> nat) list"
  timers :: "nat list"
  downSet :: "string set"
  renderTick :: nat
  isRecording :: bool
  recording :: "RecordedEvent list"
  recordStartRef :: "real option"

text \<open>The state after the first render (lines 128-141, 205, 216).\<close>

definition initial :: piano where
  "initial =
     \<lparr> octave = 4, sustain = False, volume = 0.35, waveform = Sine, armed = False,
       ctxRef = False, heap = (\<lambda>a. None), next_voice = 0, activeVoices = [],
       timers = [], downSet = {}, renderTick = 0, isRecording = False,
       recording = [], recordStartRef = None \<rparr>"

subsection \<open>Voice methods\<close>

text \<open>\<^verbatim>\<open>Voice.release\<close>, lines 106-113, on the voice at address \<open>a\<close>.\<close>

definition Voice_release :: "nat \<Rightarrow> piano \<Rightarrow> piano" where
  "Voice_release a s =
     (case heap s a of
        None \<Rightarrow> s
      | Some v \<Rightarrow>
          if ended v then s
          else s\<lparr> heap := (heap s)(a \<mapsto> v\<lparr>release_scheduled := True\<rparr>),
                  timers := timers s @ [a] \<rparr>)"

text \<open>\<^verbatim>\<open>Voice.stop\<close>, lines 115-124.\<close>

definition Voice_stop :: "nat \<Rightarrow> piano \<Rightarrow> piano" where
  "Voice_stop a s =
     (case heap s a of
        None \<Rightarrow> s
      | Some v \<Rightarrow> if ended v then s else s\<lparr> heap := (heap s)(a \<mapsto> v\<lparr>ended := True\<rparr>) \<rparr>)"

text \<open>The oldest pending \<^verbatim>\<open>setTimeout\<close> of a release fires (line 112).\<close>

definition timer_fires :: "piano \<Rightarrow> piano" where
  "timer_fires s =
     (case timers s of
        [] \<Rightarrow> s
      | a # rest \<Rightarrow> Voice_stop a (s\<lparr> timers := rest \<rparr>))"

subsection \<open>Voice manager\<close>

definition highlightKey :: "string \<Rightarrow> bool \<Rightarrow> piano \<Rightarrow> piano" where
  "highlightKey k down s =
     s\<lparr> downSet := (if down then insert k (downSet s) else downSet s - {k}),
        renderTick := renderTick s + 1 \<rparr>"

definition clearAllHighlights :: "piano \<Rightarrow> piano" where
  "clearAllHighlights s = s\<lparr> downSet := {}, renderTick := renderTick s + 1 \<rparr>"

definition ensureAudio :: "piano \<Rightarrow> piano" where
  "ensureAudio s = (if \<not> ctxRef s then s\<lparr> ctxRef := True, armed := True \<rparr> else s)"

text \<open>\<^verbatim>\<open>keyToMidi\<close>, lines 164-170; \<open>None\<close> is the \<^verbatim>\<open>null\<close> result.\<close>

definition keyToMidi :: "piano \<Rightarrow> string \<Rightarrow> int option" where
  "keyToMidi s key =
     (case KEY_TO_OFFSET (toUpperCase key) of
        None \<Rightarrow> None
      | Some offset \<Rightarrow> Some (12 * (octave s + 1) + offset))"

text \<open>
  The frequency that \<^verbatim>\<open>startNote\<close> computes for a key (lines 175 and 178):
  \<^verbatim>\<open>midiToFreq(keyToMidi(k))\<close>, with \<open>None\<close> where \<^verbatim>\<open>keyToMidi\<close> returns null.
\<close>

definition pitch :: "piano \<Rightarrow> string \<Rightarrow> real option" where
  "pitch s key = map_option midiToFreq (keyToMidi s key)"

text \<open>\<^verbatim>\<open>startNote\<close>, lines 172-183.\<close>

definition startNote :: "string \<Rightarrow> piano \<Rightarrow> piano" where
  "startNote key s =
     (let k = toUpperCase key in
      if map_of (activeVoices s) k \<noteq> None then s
      else case keyToMidi s k of
        None \<Rightarrow> s
      | Some midi \<Rightarrow>
          let s1 = ensureAudio s;
              fr = midiToFreq midi;
              a = next_voice s1;
              s2 = s1\<lparr> heap := (heap s1)(a \<mapsto> new_Voice fr (waveform s1) (volume s1)),
                       next_voice := Suc a \<rparr>;
              s3 = s2\<lparr> activeVoices := AList.update k a (activeVoices s2) \<rparr>
          in highlightKey k True s3)"

text \<open>\<^verbatim>\<open>stopNote\<close>, lines 185-196.\<close>

definition stopNote :: "string \<Rightarrow> piano \<Rightarrow> piano" where
  "stopNote key s =
     (let k = toUpperCase key in
      case map_of (activeVoices s) k of
        None \<Rightarrow> s
      | Some a \<Rightarrow>
          if sustain s then s
          else let s1 = Voice_release a s;
                   s2 = s1\<lparr> activeVoices := AList.delete k (activeVoices s1) \<rparr>
               in highlightKey k False s2)"

text \<open>\<^verbatim>\<open>allNotesOff\<close>, lines 198-202.\<close>

definition allNotesOff :: "piano \<Rightarrow> piano" where
  "allNotesOff s =
     (let s1 = fold (\<lambda>(k, a). Voice_release a) (activeVoices s) s;
          s2 = s1\<lparr> activeVoices := [] \<rparr>
      in clearAllHighlights s2)"

subsection \<open>Configuration setters\<close>

text \<open>
  The \<^verbatim>\<open>useState\<close> setters, as the source calls them: \<^verbatim>\<open>setSustain\<close> (lines 224,
  354), \<^verbatim>\<open>setOctave\<close> with the clamping updaters of lines 227-228 and 328-330,
  \<^verbatim>\<open>setVolume\<close> (line 337) and \<^verbatim>\<open>setWaveform\<close> (line 345).
\<close>

definition setSustain :: "bool \<Rightarrow> piano \<Rightarrow> piano" where
  "setSustain b s = s\<lparr> sustain := b \<rparr>"

definition setOctave :: "(int \<Rightarrow> int) \<Rightarrow> piano \<Rightarrow> piano" where
  "setOctave f s = s\<lparr> octave := f (octave s) \<rparr>"

definition octave_up :: "int \<Rightarrow> int" where
  "octave_up ov = min 8 (ov + 1)"

definition octave_down :: "int \<Rightarrow> int" where
  "octave_down ov = max 1 (ov - 1)"

definition setVolume :: "real \<Rightarrow> piano \<Rightarrow> piano" where
  "setVolume v s = s\<lparr> volume := v \<rparr>"

definition setWaveform :: "OscillatorType \<Rightarrow> piano \<Rightarrow> piano" where
  "setWaveform w s = s\<lparr> waveform := w \<rparr>"

subsection \<open>Recorder\<close>

text \<open>
  \<^verbatim>\<open>pushRecord\<close>, lines 254-258. The source reads the clock twice: \<open>c1\<close> is the
  reading of line 255, taken only when \<^verbatim>\<open>recordStartRef.current\<close> is null, and
  \<open>c2\<close> is the reading of line 256.
\<close>

definition pushRecord :: "string \<Rightarrow> transition \<Rightarrow> real \<Rightarrow> real \<Rightarrow> piano \<Rightarrow> piano" where
  "pushRecord key ty c1 c2 s =
     (let t0 = (case recordStartRef s of Some x \<Rightarrow> x | None \<Rightarrow> c1);
          s1 = s\<lparr> recordStartRef := Some t0 \<rparr>;
          t = c2 - t0
      in s1\<lparr> recording := recording s1 @
                [\<lparr> ev_key = toUpperCase key, ev_type = ty, ev_t = t, ev_scheduled = None \<rparr>] \<rparr>)"

definition startRecording :: "piano \<Rightarrow> piano" where
  "startRecording s = s\<lparr> recording := [], recordStartRef := None, isRecording := True \<rparr>"

definition stopRecording :: "piano \<Rightarrow> piano" where
  "stopRecording s = s\<lparr> isRecording := False \<rparr>"

subsection \<open>Keyboard handlers\<close>

text \<open>
  \<^verbatim>\<open>handleDown\<close> and \<^verbatim>\<open>handleUp\<close>, lines 220-243, applied to \<^verbatim>\<open>e.key\<close>; \<open>c1\<close> and
  \<open>c2\<close> are the clock readings handed to \<open>pushRecord\<close>.
\<close>

definition handleDown :: "string \<Rightarrow> real \<Rightarrow> real \<Rightarrow> piano \<Rightarrow> piano" where
  "handleDown key c1 c2 s =
     (let k = toUpperCase key in
      if k = '' '' then setSustain (\<not> sustain s) s
      else
        let s1 = (if k = '']'' then setOctave octave_up s else s);
            s2 = (if k = ''['' then setOctave octave_down s1 else s1)
        in if KEY_TO_OFFSET k \<noteq> None
           then let s3 = startNote k s2
                in if isRecording s3 then pushRecord k Down c1 c2 s3 else s3
           else s2)"

definition handleUp :: "string \<Rightarrow> real \<Rightarrow> real \<Rightarrow> piano \<Rightarrow> piano" where
  "handleUp key c1 c2 s =
     (let k = toUpperCase key in
      if KEY_TO_OFFSET k \<noteq> None
      then let s1 = (if isRecording s then pushRecord k Up c1 c2 s else s)
           in stopNote k s1
      else s)"

subsection \<open>Playback\<close>

text \<open>
  \<^verbatim>\<open>playRecording\<close>, lines 268-287. A pass reads the clock once (line 272), and a
  dispatch is logged as the pair of that \<^verbatim>\<open>now\<close>, the elapsed time of the pass that
  issued it, and the event.
\<close>

type_synonym dispatch = "real \<times> RecordedEvent"

definition falsy :: "bool option \<Rightarrow> bool" where
  "falsy f = (f \<noteq> Some True)"

text \<open>The first \<^verbatim>\<open>forEach\<close> of \<^verbatim>\<open>sched\<close>, lines 273-275.\<close>

definition init_flag :: "RecordedEvent \<Rightarrow> RecordedEvent" where
  "init_flag ev = (if falsy (ev_scheduled ev) then ev\<lparr> ev_scheduled := Some False \<rparr> else ev)"

text \<open>
  The second \<^verbatim>\<open>forEach\<close>, lines 276-283: the events in array order, each one marked
  and dispatched when it is not yet scheduled and \<^verbatim>\<open>ev.t <= now + 5\<close>.
\<close>

fun dispatch_due :: "real \<Rightarrow> RecordedEvent list \<Rightarrow> piano
                      \<Rightarrow> dispatch list \<times> RecordedEvent list \<times> piano" where
  "dispatch_due now [] s = ([], [], s)"
| "dispatch_due now (ev # evs) s =
     (if falsy (ev_scheduled ev) \<and> ev_t ev \<le> now + 5
      then let s1 = (if ev_type ev = Down then startNote (ev_key ev) s
                     else stopNote (ev_key ev) s);
               (dlog, evs', s2) = dispatch_due now evs s1
           in ((now, ev) # dlog, ev\<lparr> ev_scheduled := Some True \<rparr> # evs', s2)
      else let (dlog, evs', s2) = dispatch_due now evs s
           in (dlog, ev # evs', s2))"

text \<open>
  One call of \<^verbatim>\<open>sched\<close> at elapsed time \<open>now\<close>: the dispatches, whether the pass
  asks for another animation frame (line 284), and the state.
\<close>

definition sched :: "real \<Rightarrow> piano \<Rightarrow> dispatch list \<times> bool \<times> piano" where
  "sched now s =
     (let evs1 = map init_flag (recording s);
          (dlog, evs2, s1) = dispatch_due now evs1 s;
          s2 = s1\<lparr> recording := evs2 \<rparr>
      in (dlog, list_ex (\<lambda>ev. falsy (ev_scheduled ev)) evs2, s2))"

text \<open>
  The passes that \<^verbatim>\<open>requestAnimationFrame\<close> runs: \<open>start\<close> is the clock reading of
  line 270 and the list holds the clock reading of each later frame. The passes stop
  when one does not re-arm, or when no frame comes any more. The passes of one playback
  keep the \<^verbatim>\<open>startNote\<close> and \<^verbatim>\<open>stopNote\<close> of the render in which it began; the model
  follows a playback during which octave, waveform, volume and sustain stay as they
  were at its start.
\<close>

fun frames :: "real \<Rightarrow> real list \<Rightarrow> piano \<Rightarrow> dispatch list \<times> piano" where
  "frames start [] s = ([], s)"
| "frames start (c # cs) s =
     (let (dlog, rearm, s1) = sched (c - start) s
      in if rearm then (let (dlog2, s2) = frames start cs s1 in (dlog @ dlog2, s2))
         else (dlog, s1))"

text \<open>
  \<^verbatim>\<open>playRecording\<close>: \<open>c0\<close> is the clock reading of the first call of \<^verbatim>\<open>sched\<close>,
  made at once (line 286).
\<close>

definition playRecording :: "real \<Rightarrow> real \<Rightarrow> real list \<Rightarrow> piano \<Rightarrow> dispatch list \<times> piano" where
  "playRecording start c0 cs s =
     (if recording s = [] then ([], s) else frames start (c0 # cs) s)"

subsection \<open>Example runs\<close>

text \<open>
  Sustain on, \<^verbatim>\<open>A\<close> pressed and let go, sustain off.
\<close>

definition sustain_stuck :: piano where
  "sustain_stuck =
     setSustain False (stopNote ''a'' (startNote ''a'' (setSustain True initial)))"

text \<open>Sustain on, \<^verbatim>\<open>A\<close> and \<^verbatim>\<open>S\<close> held.\<close>

definition held_chord :: piano where
  "held_chord = startNote ''s'' (startNote ''a'' (setSustain True initial))"

text \<open>\<^verbatim>\<open>A\<close> sounding at octave 4.\<close>

definition one_note :: piano where
  "one_note = startNote ''a'' initial"

subsection \<open>Capture runs\<close>

text \<open>
  A run of captures: \<open>pushRecord\<close> applied to each key transition in turn, every
  transition with the two clock readings of its call.
\<close>

type_synonym capture_input = "string \<times> transition \<times> real \<times> real"

definition reading :: "capture_input \<Rightarrow> real" where
  "reading e = snd (snd (snd e))"

fun capture :: "capture_input list \<Rightarrow> piano \<Rightarrow> piano" where
  "capture [] s = s"
| "capture ((k, ty, c1, c2) # es) s = capture es (pushRecord k ty c1 c2 s)"

text \<open>
  A first capture during which the clock advances by one millisecond between the two
  reads of \<open>pushRecord\<close>.
\<close>

definition ticking_take :: piano where
  "ticking_take = pushRecord ''a'' Down 1000 1001 (startRecording initial)"

text \<open>\<^verbatim>\<open>A\<close> pressed at clock 1000 and let go at 2000, then recording stopped.\<close>

definition held_take :: piano where
  "held_take =
     stopRecording (capture [(''a'', Down, 1000, 1000), (''a'', Up, 2000, 2000)]
                      (startRecording initial))"

text \<open>Recording on while \<^verbatim>\<open>A\<close> is already sounding.\<close>

definition recording_held :: piano where
  "recording_held = startRecording one_note"

text \<open>
  \<open>held_take\<close> played once: playback starts at clock 5000, the first pass runs at
  once and the second at clock 5996.
\<close>

definition held_take_played :: piano where
  "held_take_played = snd (playRecording 5000 5000 [5996] held_take)"

section \<open>Properties\<close>

subsection \<open>Upper-casing and the key table\<close>

lemma upper_char_idem: "upper_char (upper_char c) = upper_char c"
  by (simp add: upper_char_def Let_def) fastforce

lemma toUpperCase_idem: "toUpperCase (toUpperCase k) = toUpperCase k"
  by (simp add: toUpperCase_def upper_char_idem)

lemma toUpperCase_a: "toUpperCase ''a'' = ''A''"
  by code_simp

lemma toUpperCase_A: "toUpperCase ''A'' = ''A''"
  by code_simp

lemma toUpperCase_q: "toUpperCase ''q'' = ''Q''"
  by code_simp

subsection \<open>Rounding to doubles\<close>

lemma round_half_even_close: "\<bar>of_int (round_half_even y) - y\<bar> \<le> 1 / 2"
  by (simp add: round_half_even_def Let_def)

lemma round_half_even_eqI:
  assumes "of_int n - 1 / 2 < y" and "y < of_int n + 1 / 2"
  shows "round_half_even y = n"
proof (cases "y < of_int n")
  case True
  with assms have "\<lfloor>y\<rfloor> = n - 1" by (simp add: floor_eq_iff)
  with assms True show ?thesis
    by (simp add: round_half_even_def Let_def)
next
  case False
  with assms have "\<lfloor>y\<rfloor> = n" by (simp add: floor_eq_iff)
  with assms False show ?thesis
    by (simp add: round_half_even_def Let_def)
qed

lemma floor_log2:
  assumes "2 powr of_int e \<le> \<bar>x\<bar>" and "\<bar>x\<bar> < 2 powr (of_int e + 1)"
  shows "\<lfloor>log 2 \<bar>x\<bar>\<rfloor> = e"
proof -
  have "0 < \<bar>x\<bar>"
    using assms(1) powr_gt_zero [of 2 "of_int e"] by linarith
  then show ?thesis
    using assms by (simp add: floor_log_eq_powr_iff)
qed

lemma binary64_eqI:
  assumes "2 powr of_int e \<le> \<bar>x\<bar>" and "\<bar>x\<bar> < 2 powr (of_int e + 1)" and "- 1022 \<le> e"
    and "of_int n - 1 / 2 < x / 2 powr (of_int e - 52)"
    and "x / 2 powr (of_int e - 52) < of_int n + 1 / 2"
  shows "binary64 x = of_int n * 2 powr (of_int e - 52)"
proof -
  have nz: "x \<noteq> 0"
    using assms(1) powr_gt_zero [of 2 "of_int e"] by auto
  have fl: "\<lfloor>log 2 \<bar>x\<bar>\<rfloor> = e"
    using assms(1,2) by (rule floor_log2)
  have mx: "max e (- 1022) = e"
    using assms(3) by simp
  show ?thesis
    using nz by (simp add: binary64_def fl mx Let_def round_half_even_eqI [OF assms(4,5)])
qed

lemma binary64_rel:
  assumes "2 powr (- 1022) \<le> \<bar>x\<bar>"
  shows "\<bar>binary64 x - x\<bar> \<le> \<bar>x\<bar> / 2 ^ 53"
proof -
  have pos: "0 < \<bar>x\<bar>"
    using assms powr_gt_zero [of 2 "- 1022"] by linarith
  then have nz: "x \<noteq> 0" by simp
  define e where "e = \<lfloor>log 2 \<bar>x\<bar>\<rfloor>"
  define u :: real where "u = 2 powr (of_int e - 52)"
  have "- 1022 \<le> log 2 \<bar>x\<bar>"
    using assms pos by (simp add: le_log_iff)
  then have ge: "- 1022 \<le> e"
    by (simp add: e_def le_floor_iff)
  have low: "2 powr of_int e \<le> \<bar>x\<bar>"
    using pos floor_log_eq_powr_iff [of "\<bar>x\<bar>" 2 e] by (simp add: e_def)
  have upos: "0 < u" by (simp add: u_def)
  have "u = 2 powr of_int e / 2 ^ 52"
    by (simp add: u_def powr_diff)
  with low have ule: "u \<le> \<bar>x\<bar> / 2 ^ 52"
    by (simp add: divide_right_mono)
  have b: "binary64 x = of_int (round_half_even (x / u)) * u"
    using nz ge by (simp add: binary64_def e_def [symmetric] u_def Let_def max_def)
  have "binary64 x - x = (of_int (round_half_even (x / u)) - x / u) * u"
    using upos by (simp add: b field_simps)
  then have "\<bar>binary64 x - x\<bar> = \<bar>of_int (round_half_even (x / u)) - x / u\<bar> * u"
    using upos by (simp add: abs_mult)
  also have "\<dots> \<le> 1 / 2 * u"
    using upos round_half_even_close [of "x / u"] by (intro mult_right_mono) simp_all
  also have "\<dots> \<le> 1 / 2 * (\<bar>x\<bar> / 2 ^ 52)"
    using ule by simp
  also have "\<dots> = \<bar>x\<bar> / 2 ^ 53"
    by simp
  finally show ?thesis .
qed


lemma binary64_bounds:
  assumes "2 powr (- 1022) \<le> x"
  shows "(1 - 1 / 2 ^ 53) * x \<le> binary64 x" and "binary64 x \<le> (1 + 1 / 2 ^ 53) * x"
proof -
  have pos: "0 < x"
    using assms powr_gt_zero [of 2 "- 1022"] by linarith
  with assms have "\<bar>binary64 x - x\<bar> \<le> x / 2 ^ 53"
    using binary64_rel [of x] by simp
  then have b: "x - x / 2 ^ 53 \<le> binary64 x" "binary64 x \<le> x + x / 2 ^ 53"
    unfolding abs_le_iff by linarith+
  have "(1 - 1 / 2 ^ 53) * x = x - x / 2 ^ 53" "(1 + 1 / 2 ^ 53) * x = x + x / 2 ^ 53"
    by (simp_all add: algebra_simps)
  with b show "(1 - 1 / 2 ^ 53) * x \<le> binary64 x" "binary64 x \<le> (1 + 1 / 2 ^ 53) * x"
    by simp_all
qed

subsection \<open>Rounding error of a computed frequency\<close>

text \<open>
  Every rounding changes a number of normal size by at most one part in \<open>2 ^ 53\<close>.
  The quotient, the power and the product of line 42 are each rounded once, so the
  computed frequency stays within a few parts in \<open>2 ^ 53\<close> of the exact
  \<open>440 * 2 powr ((midi - 69) / 12)\<close>.
\<close>

lemma ln_2_le_1: "ln (2::real) \<le> 1"
  using ln_2_less_1 by simp

lemma two_powr_neg_ge: "0 \<le> t \<Longrightarrow> 1 - t \<le> 2 powr (- t)" for t :: real
proof -
  assume t: "0 \<le> t"
  have "t * ln 2 \<le> t * 1"
    using t ln_2_le_1 by (intro mult_left_mono) simp_all
  then have "1 - t \<le> 1 + (- t * ln 2)" by simp
  also have "\<dots> \<le> exp (- t * ln 2)" by (rule exp_ge_add_one_self)
  also have "\<dots> = 2 powr (- t)" by (simp add: powr_def)
  finally show ?thesis .
qed

lemma two_powr_le: "0 \<le> t \<Longrightarrow> t < 1 \<Longrightarrow> 2 powr t \<le> 1 / (1 - t)" for t :: real
proof -
  assume t: "0 \<le> t" "t < 1"
  have "2 powr t = 1 / 2 powr (- t)"
    by (simp add: powr_minus field_simps)
  also have "\<dots> \<le> 1 / (1 - t)"
    using t two_powr_neg_ge [of t] by (intro divide_left_mono) simp_all
  finally show ?thesis .
qed

lemma smallest_normal_small: "2 powr (- 1022) \<le> (1 / 128 :: real)"
proof -
  have "(2::real) powr (- 1022) \<le> 2 powr (- 7)"
    by simp
  also have "\<dots> = 1 / 128"
    by (simp add: powr_minus field_simps)
  finally show ?thesis .
qed

lemma exponent_close:
  assumes "- 3 \<le> m" and "m \<le> 141"
  shows "\<bar>double_div (real_of_int m - 69) 12 - (real_of_int m - 69) / 12\<bar> \<le> 6 / 2 ^ 53"
proof (cases "m = 69")
  case True
  then show ?thesis by (simp add: double_div_def binary64_def)
next
  case False
  let ?x = "(real_of_int m - 69) / 12"
  from False have "\<bar>m - 69\<bar> \<ge> 1" by simp
  then have "1 \<le> \<bar>real_of_int m - 69\<bar>"
    by (metis of_int_1_le_iff of_int_abs of_int_diff of_int_numeral)
  then have lo: "1 / 12 \<le> \<bar>?x\<bar>" by simp
  have "\<bar>real_of_int m - 69\<bar> \<le> 72"
    using assms by (simp add: abs_le_iff)
  then have hi: "\<bar>?x\<bar> \<le> 6" by simp
  from lo smallest_normal_small have "2 powr (- 1022) \<le> \<bar>?x\<bar>" by linarith
  then have "\<bar>binary64 ?x - ?x\<bar> \<le> \<bar>?x\<bar> / 2 ^ 53" by (rule binary64_rel)
  also have "\<dots> \<le> 6 / 2 ^ 53"
    using hi by (simp add: divide_right_mono)
  finally show ?thesis by (simp add: double_div_def)
qed


lemma midiToFreq_enclosure:
  assumes "- 3 \<le> m" and "m \<le> 141"
  shows "(1 - 8 / 2 ^ 53) * (440 * 2 powr ((real_of_int m - 69) / 12)) \<le> midiToFreq m"
    and "midiToFreq m \<le> (1 + 9 / 2 ^ 53) * (440 * 2 powr ((real_of_int m - 69) / 12))"
proof -
  define x where "x = (real_of_int m - 69) / 12"
  define e where "e = double_div (real_of_int m - 69) 12"
  define X :: real where "X = 2 powr x"
  define Q :: real where "Q = 2 powr e"
  define P where "P = binary64 Q"
  define F where "F = binary64 (440 * P)"
  define c1 :: real where "c1 = 1 - 1 / 2 ^ 53"
  define c2 :: real where "c2 = 1 + 1 / 2 ^ 53"
  define k1 :: real where "k1 = 1 - 6 / 2 ^ 53"
  have num: "0 \<le> c1" "0 \<le> c2" "0 < k1" "1 \<le> 440 * c1"
    "1 - 8 / 2 ^ 53 \<le> c1 * c1 * k1" "c2 * c2 / k1 \<le> 1 + 9 / 2 ^ 53"
    by (simp_all add: c1_def c2_def k1_def)
  have Xpos: "0 < X" by (simp add: X_def)
  have F: "midiToFreq m = F"
    by (simp add: midiToFreq_def double_mult_def Math_pow_def F_def P_def Q_def e_def)
  have close: "\<bar>e - x\<bar> \<le> 6 / 2 ^ 53"
    using exponent_close [OF assms] by (simp add: e_def x_def)
  have xr: "- 6 \<le> x"
    using assms(1) by (simp add: x_def)
  have Q: "Q = X * 2 powr (e - x)"
    by (simp add: Q_def X_def powr_add [symmetric])
  from close have dlo: "- (6 / 2 ^ 53) \<le> e - x" and dhi: "e - x \<le> 6 / 2 ^ 53"
    unfolding abs_le_iff by linarith+
  have "2 powr (- (6 / 2 ^ 53)) \<le> 2 powr (e - x)"
    by (rule powr_mono [OF dlo]) simp
  moreover have "1 - 6 / 2 ^ 53 \<le> 2 powr (- (6 / 2 ^ 53) :: real)"
    by (rule two_powr_neg_ge) simp
  ultimately have "1 - 6 / 2 ^ 53 \<le> 2 powr (e - x)"
    by (rule order_trans [rotated])
  then have "k1 \<le> 2 powr (e - x)"
    by (simp only: k1_def)
  then have Qlo: "k1 * X \<le> Q"
    using Xpos by (simp add: Q mult.commute)
  have "2 powr (e - x) \<le> 2 powr (6 / 2 ^ 53)"
    by (rule powr_mono [OF dhi]) simp
  moreover have "2 powr (6 / 2 ^ 53 :: real) \<le> 1 / (1 - 6 / 2 ^ 53)"
    by (rule two_powr_le) simp_all
  ultimately have "2 powr (e - x) \<le> 1 / (1 - 6 / 2 ^ 53)"
    by (rule order_trans)
  then have "2 powr (e - x) \<le> 1 / k1"
    by (simp only: k1_def)
  then have "X * 2 powr (e - x) \<le> X * (1 / k1)"
    using Xpos by (intro mult_left_mono) simp_all
  then have Qhi: "Q \<le> X / k1"
    by (simp add: Q)
  have "6 / 2 ^ 53 \<le> (1::real)" by simp
  with dlo xr have "- 7 \<le> e" by linarith
  then have "(2::real) powr (- 7) \<le> Q"
    by (simp add: Q_def)
  moreover have "(2::real) powr (- 1022) \<le> 2 powr (- 7)"
    by simp
  ultimately have Qn: "2 powr (- 1022) \<le> Q" by linarith
  have Qpos: "0 < Q" by (simp add: Q_def)
  have Plo: "c1 * Q \<le> P" and Phi: "P \<le> c2 * Q"
    using binary64_bounds [OF Qn] by (simp_all add: P_def c1_def c2_def)
  have "1 * Q \<le> 440 * c1 * Q"
    using num(4) Qpos by (intro mult_right_mono) simp_all
  also have "\<dots> = 440 * (c1 * Q)" by simp
  also have "\<dots> \<le> 440 * P" using Plo by simp
  finally have "Q \<le> 440 * P" by simp
  with Qn have Rn: "2 powr (- 1022) \<le> 440 * P" by linarith
  have Flo: "c1 * (440 * P) \<le> F" and Fhi: "F \<le> c2 * (440 * P)"
    using binary64_bounds [OF Rn] by (simp_all add: F_def c1_def c2_def)
  have "(1 - 8 / 2 ^ 53) * (440 * X) \<le> c1 * c1 * k1 * (440 * X)"
    using num(5) Xpos by (intro mult_right_mono) simp_all
  also have "\<dots> = c1 * (440 * (c1 * (k1 * X)))"
    by (simp add: algebra_simps)
  also have "\<dots> \<le> c1 * (440 * (c1 * Q))"
    using Qlo num(1) by (intro mult_left_mono) simp_all
  also have "\<dots> \<le> c1 * (440 * P)"
    using Plo num(1) by (intro mult_left_mono) simp_all
  also have "\<dots> \<le> F" by (rule Flo)
  finally show "(1 - 8 / 2 ^ 53) * (440 * 2 powr ((real_of_int m - 69) / 12)) \<le> midiToFreq m"
    by (simp add: F X_def x_def)
  have "F \<le> c2 * (440 * P)" by (rule Fhi)
  also have "\<dots> \<le> c2 * (440 * (c2 * Q))"
    using Phi num(2) by (intro mult_left_mono) simp_all
  also have "\<dots> \<le> c2 * (440 * (c2 * (X / k1)))"
    using Qhi num(2) by (intro mult_left_mono) simp_all
  also have "\<dots> = c2 * c2 / k1 * (440 * X)"
    by (simp add: algebra_simps)
  also have "\<dots> \<le> (1 + 9 / 2 ^ 53) * (440 * X)"
    using num(6) Xpos by (intro mult_right_mono) simp_all
  finally show "midiToFreq m \<le> (1 + 9 / 2 ^ 53) * (440 * 2 powr ((real_of_int m - 69) / 12))"
    by (simp add: F X_def x_def)
qed


lemma exact_octave:
  "440 * 2 powr ((real_of_int (m + 12) - 69) / 12) = 2 * (440 * 2 powr ((real_of_int m - 69) / 12))"
proof -
  have "(real_of_int (m + 12) - 69) / 12 = (real_of_int m - 69) / 12 + 1"
    by (simp add: field_simps)
  then have "2 powr ((real_of_int (m + 12) - 69) / 12)
             = 2 powr ((real_of_int m - 69) / 12) * (2::real)"
    by (simp only: powr_add) simp
  then show ?thesis by simp
qed

lemma midiToFreq_octave_step:
  assumes "24 \<le> m" and "m \<le> 125"
  shows "\<bar>midiToFreq m - 440 * 2 powr ((real_of_int m - 69) / 12)\<bar>
           \<le> 440 * 2 powr ((real_of_int m - 69) / 12) / 2 ^ 49"
    and "0 < midiToFreq m"
    and "midiToFreq m < midiToFreq (m + 12)"
    and "\<bar>midiToFreq (m + 12) / midiToFreq m - 2\<bar> \<le> 1 / 2 ^ 47"
proof -
  define G :: real where "G = 440 * 2 powr ((real_of_int m - 69) / 12)"
  define F where "F = midiToFreq m"
  define F' where "F' = midiToFreq (m + 12)"
  define lo :: real where "lo = 1 - 8 / 2 ^ 53"
  define hi :: real where "hi = 1 + 9 / 2 ^ 53"
  define eta :: real where "eta = 1 / 2 ^ 47"
  have num: "0 < lo" "0 < hi" "hi < 2 * lo" "2 * hi / lo \<le> 2 + eta" "2 - eta \<le> 2 * lo / hi"
    "1 - 1 / 2 ^ 49 \<le> lo" "hi \<le> 1 + 1 / 2 ^ 49"
    by (simp_all add: lo_def hi_def eta_def)
  have Gpos: "0 < G" by (simp add: G_def)
  have r1: "- 3 \<le> m" "m \<le> 141" and r2: "- 3 \<le> m + 12" "m + 12 \<le> 141"
    using assms by simp_all
  have Flo: "lo * G \<le> F" and Fhi: "F \<le> hi * G"
    using midiToFreq_enclosure [OF r1] by (simp_all add: F_def G_def lo_def hi_def)
  have F'lo: "lo * (2 * G) \<le> F'" and F'hi: "F' \<le> hi * (2 * G)"
    using midiToFreq_enclosure [OF r2]
    by (simp_all only: F'_def G_def lo_def hi_def exact_octave)
  have "0 < lo * G" using num(1) Gpos by simp
  with Flo have Fpos: "0 < F" by linarith
  have "hi * G < 2 * lo * G"
    using num(3) Gpos by (intro mult_strict_right_mono)
  with Fhi F'lo have less: "F < F'" by (simp add: mult.assoc mult.left_commute)
  have "G \<le> F / lo"
    using Flo num(1) by (simp add: pos_le_divide_eq mult.commute)
  then have "hi * (2 * G) \<le> hi * (2 * (F / lo))"
    using num(2) by (intro mult_left_mono) simp_all
  also have "\<dots> = 2 * hi / lo * F" by simp
  also have "\<dots> \<le> (2 + eta) * F"
    using num(4) Fpos by (intro mult_right_mono) simp_all
  finally have up: "F' \<le> (2 + eta) * F"
    using F'hi by linarith
  have "F / hi \<le> G"
    using Fhi num(2) by (simp add: pos_divide_le_eq mult.commute)
  then have "lo * (2 * (F / hi)) \<le> lo * (2 * G)"
    using num(1) by (intro mult_left_mono) simp_all
  moreover have "lo * (2 * (F / hi)) = 2 * lo / hi * F" by simp
  moreover have "(2 - eta) * F \<le> 2 * lo / hi * F"
    using num(5) Fpos by (intro mult_right_mono) simp_all
  ultimately have down: "(2 - eta) * F \<le> F'"
    using F'lo by linarith
  from up Fpos have "F' / F \<le> 2 + eta"
    by (simp add: pos_divide_le_eq)
  moreover from down Fpos have "2 - eta \<le> F' / F"
    by (simp add: pos_le_divide_eq)
  ultimately have ratio: "\<bar>F' / F - 2\<bar> \<le> eta"
    unfolding abs_le_iff by linarith
  have "(1 - 1 / 2 ^ 49) * G \<le> lo * G" "hi * G \<le> (1 + 1 / 2 ^ 49) * G"
    using num(6,7) Gpos by (simp_all only: mult_le_cancel_right) simp_all
  with Flo Fhi have "(1 - 1 / 2 ^ 49) * G \<le> F" "F \<le> (1 + 1 / 2 ^ 49) * G"
    by (blast intro: order_trans)+
  then have "G - G / 2 ^ 49 \<le> F" "F \<le> G + G / 2 ^ 49"
    by (simp_all add: algebra_simps)
  then have near: "\<bar>F - G\<bar> \<le> G / 2 ^ 49"
    by (simp only: abs_le_iff) linarith
  from near show "\<bar>midiToFreq m - 440 * 2 powr ((real_of_int m - 69) / 12)\<bar>
           \<le> 440 * 2 powr ((real_of_int m - 69) / 12) / 2 ^ 49"
    by (simp only: F_def G_def)
  from Fpos show "0 < midiToFreq m" by (simp only: F_def)
  from less show "midiToFreq m < midiToFreq (m + 12)" by (simp only: F_def F'_def)
  from ratio show "\<bar>midiToFreq (m + 12) / midiToFreq m - 2\<bar> \<le> 1 / 2 ^ 47"
    by (simp only: F_def F'_def eta_def)
qed

subsection \<open>The frequencies of G at octaves 2 and 3\<close>

text \<open>
  The values of \<open>midiToFreq\<close> at the MIDI numbers 43 and 55, rounding by rounding. The
  power \<open>2 powr (5 / 6)\<close> is enclosed through its sixth power, and the small factor
  left by the rounded exponent through bounds on \<open>ln 2\<close>.
\<close>

lemma ln_2_bounds: "2 / 3 \<le> ln (2::real)" "ln (2::real) \<le> 7 / 10"
proof -
  have "(1 - (2 / 3) / real 16) ^ 16 \<le> exp (- (2 / 3))"
    by (rule exp_ge_one_minus_x_over_n_power_n) simp_all
  moreover have "(1 / 2 :: real) \<le> (1 - (2 / 3) / real 16) ^ 16"
    by (simp add: power_divide)
  ultimately have "1 / 2 \<le> exp (- (2 / 3 :: real))"
    by (rule order_trans [rotated])
  then have "exp (2 / 3 :: real) \<le> 2"
    by (simp add: exp_minus field_simps)
  then have "ln (exp (2 / 3 :: real)) \<le> ln 2"
    by (subst ln_le_cancel_iff) simp_all
  then show "2 / 3 \<le> ln (2::real)" by simp
  have "(1 + (7 / 10) / real 64) ^ 64 \<le> exp (7 / 10)"
    by (rule exp_ge_one_plus_x_over_n_power_n) simp_all
  moreover have "(2 :: real) \<le> (1 + (7 / 10) / real 64) ^ 64"
    by (simp add: power_divide)
  ultimately have "2 \<le> exp (7 / 10 :: real)"
    by (rule order_trans [rotated])
  then have "ln 2 \<le> ln (exp (7 / 10 :: real))"
    by (subst ln_le_cancel_iff) simp_all
  then show "ln (2::real) \<le> 7 / 10" by simp
qed

lemma exp_le_inverse: "t < 1 \<Longrightarrow> exp t \<le> 1 / (1 - t)" for t :: real
proof -
  assume t: "t < 1"
  have "1 - t \<le> exp (- t)"
    using exp_ge_add_one_self [of "- t"] by simp
  then have "1 / exp (- t) \<le> 1 / (1 - t)"
    using t by (intro divide_left_mono) simp_all
  then show ?thesis by (simp add: exp_minus inverse_eq_divide)
qed

lemma two_powr_bounds_pos:
  fixes t :: real
  assumes "0 \<le> t" and "t < 1"
  shows "1 + 2 / 3 * t \<le> 2 powr t" and "2 powr t \<le> 1 / (1 - 7 / 10 * t)"
proof -
  have "t * (2 / 3) \<le> t * ln 2" and "t * ln 2 \<le> t * (7 / 10)"
    by (rule mult_left_mono [OF ln_2_bounds(1) assms(1)])
       (rule mult_left_mono [OF ln_2_bounds(2) assms(1)])
  then have a: "2 / 3 * t \<le> t * ln 2" and b: "t * ln 2 \<le> 7 / 10 * t"
    by (simp_all only: mult.commute [of t])
  have "1 + 2 / 3 * t \<le> 1 + t * ln 2" using a by linarith
  also have "\<dots> \<le> exp (t * ln 2)" by (rule exp_ge_add_one_self)
  finally show "1 + 2 / 3 * t \<le> 2 powr t" by (simp add: powr_def mult.commute)
  have lt: "7 / 10 * t < 1" using assms by simp
  with b have "t * ln 2 < 1" by linarith
  then have "exp (t * ln 2) \<le> 1 / (1 - t * ln 2)" by (rule exp_le_inverse)
  also have "\<dots> \<le> 1 / (1 - 7 / 10 * t)"
    using b lt by (intro divide_left_mono) (simp_all add: mult_pos_pos)
  finally show "2 powr t \<le> 1 / (1 - 7 / 10 * t)" by (simp add: powr_def mult.commute)
qed

lemma two_powr_bounds_neg:
  fixes t :: real
  assumes "t \<le> 0"
  shows "1 + 7 / 10 * t \<le> 2 powr t" and "2 powr t \<le> 1 / (1 - 2 / 3 * t)"
proof -
  have "t * (7 / 10) \<le> t * ln 2" and "t * ln 2 \<le> t * (2 / 3)"
    by (rule mult_left_mono_neg [OF ln_2_bounds(2) assms])
       (rule mult_left_mono_neg [OF ln_2_bounds(1) assms])
  then have a: "7 / 10 * t \<le> t * ln 2" and b: "t * ln 2 \<le> 2 / 3 * t"
    by (simp_all only: mult.commute [of t])
  have "1 + 7 / 10 * t \<le> 1 + t * ln 2" using a by linarith
  also have "\<dots> \<le> exp (t * ln 2)" by (rule exp_ge_add_one_self)
  finally show "1 + 7 / 10 * t \<le> 2 powr t" by (simp add: powr_def mult.commute)
  have le: "2 / 3 * t \<le> 0" using assms by simp
  with b have "t * ln 2 < 1" by linarith
  then have "exp (t * ln 2) \<le> 1 / (1 - t * ln 2)" by (rule exp_le_inverse)
  also have "\<dots> \<le> 1 / (1 - 2 / 3 * t)"
    using b le by (intro divide_left_mono) (simp_all add: mult_pos_pos)
  finally show "2 powr t \<le> 1 / (1 - 2 / 3 * t)" by (simp add: powr_def mult.commute)
qed

lemma root_bounds:
  "1781797436280678609480452 / 10 ^ 24 \<le> (2::real) powr (5 / 6)"
  "(2::real) powr (5 / 6) \<le> 1781797436280678609480453 / 10 ^ 24"
proof -
  have r: "(2::real) powr (5 / 6) = 32 powr (1 / 6)"
  proof -
    have "(32::real) = 2 powr 5" by simp
    then show ?thesis by (simp only: powr_powr) simp
  qed
  have unroot: "(a ^ 6) powr (1 / 6) = a" if "0 < a" for a :: real
  proof -
    from that have "a ^ 6 = a powr 6" by simp
    then show ?thesis using that by (simp only: powr_powr) simp
  qed
  define L :: real where "L = 1781797436280678609480452 / 10 ^ 24"
  define U :: real where "U = 1781797436280678609480453 / 10 ^ 24"
  have pos: "0 < L" "0 < U" by (simp_all add: L_def U_def)
  have "L ^ 6 \<le> 32" by (simp add: L_def power_divide)
  then have "(L ^ 6) powr (1 / 6) \<le> 32 powr (1 / 6)"
    by (intro powr_mono2) simp_all
  then have "L \<le> (2::real) powr (5 / 6)"
    by (simp only: r unroot [OF pos(1)])
  then show "1781797436280678609480452 / 10 ^ 24 \<le> (2::real) powr (5 / 6)"
    by (simp only: L_def)
  have "32 \<le> U ^ 6" by (simp add: U_def power_divide)
  then have "32 powr (1 / 6) \<le> (U ^ 6) powr (1 / 6)"
    by (intro powr_mono2) simp_all
  then have "(2::real) powr (5 / 6) \<le> U"
    by (simp only: r unroot [OF pos(2)])
  then show "(2::real) powr (5 / 6) \<le> 1781797436280678609480453 / 10 ^ 24"
    by (simp only: U_def)
qed

lemma e43: "double_div (real_of_int 43 - 69) 12 = - 4878899596318037 / 2 ^ 51"
proof -
  have "binary64 ((real_of_int 43 - 69) / 12)
        = of_int (- 4878899596318037) * 2 powr (of_int 1 - 52)"
    by (rule binary64_eqI) (simp_all add: powr_minus field_simps)
  then show ?thesis
    by (simp add: double_div_def powr_minus field_simps)
qed

lemma e55: "double_div (real_of_int 55 - 69) 12 = - 5254199565265579 / 2 ^ 52"
proof -
  have "binary64 ((real_of_int 55 - 69) / 12)
        = of_int (- 5254199565265579) * 2 powr (of_int 0 - 52)"
    by (rule binary64_eqI) (simp_all add: powr_minus field_simps)
  then show ?thesis
    by (simp add: double_div_def powr_minus field_simps)
qed


lemma binary64_eq_pos:
  assumes "2 powr of_int e \<le> x" and "x < 2 powr (of_int e + 1)" and "- 1022 \<le> e"
    and "(of_int n - 1 / 2) * 2 powr (of_int e - 52) < x"
    and "x < (of_int n + 1 / 2) * 2 powr (of_int e - 52)"
  shows "binary64 x = of_int n * 2 powr (of_int e - 52)"
proof -
  have pos: "0 < x"
    using assms(1) powr_gt_zero [of 2 "of_int e"] by linarith
  have u: "0 < (2::real) powr (of_int e - 52)" by simp
  show ?thesis
  proof (rule binary64_eqI)
    show "2 powr of_int e \<le> \<bar>x\<bar>" "\<bar>x\<bar> < 2 powr (of_int e + 1)" "- 1022 \<le> e"
      using assms(1-3) pos by simp_all
    show "of_int n - 1 / 2 < x / 2 powr (of_int e - 52)"
      using assms(4) u by (simp only: pos_less_divide_eq)
    show "x / 2 powr (of_int e - 52) < of_int n + 1 / 2"
      using assms(5) u by (simp only: pos_divide_less_eq)
  qed
qed

lemma pow_enclosure:
  fixes ez t lt ut :: real
  assumes "ez = of_int k + 5 / 6 + t" and "0 \<le> lt" and "lt \<le> 2 powr t" and "2 powr t \<le> ut"
  shows "2 powr of_int k * (1781797436280678609480452 / 10 ^ 24 * lt) \<le> 2 powr ez"
    and "2 powr ez \<le> 2 powr of_int k * (1781797436280678609480453 / 10 ^ 24 * ut)"
proof -
  define L :: real where "L = 1781797436280678609480452 / 10 ^ 24"
  define U :: real where "U = 1781797436280678609480453 / 10 ^ 24"
  define y :: real where "y = 2 powr (5 / 6)"
  have L: "0 \<le> L" "L \<le> y" and U: "y \<le> U"
    using root_bounds by (simp_all add: L_def U_def y_def)
  have ypos: "0 \<le> y" by (simp add: y_def)
  have split: "2 powr ez = 2 powr of_int k * (y * 2 powr t)"
    by (simp add: assms(1) y_def powr_add)
  have "L * lt \<le> y * 2 powr t"
    using L assms(2,3) by (intro mult_mono) simp_all
  then have "2 powr of_int k * (L * lt) \<le> 2 powr of_int k * (y * 2 powr t)"
    by (intro mult_left_mono) simp_all
  then show "2 powr of_int k * (1781797436280678609480452 / 10 ^ 24 * lt) \<le> 2 powr ez"
    by (simp only: split L_def)
  have "y * 2 powr t \<le> U * ut"
    using U ypos assms(4) by (intro mult_mono) simp_all
  then have "2 powr of_int k * (y * 2 powr t) \<le> 2 powr of_int k * (U * ut)"
    by (intro mult_left_mono) simp_all
  then show "2 powr ez \<le> 2 powr of_int k * (1781797436280678609480453 / 10 ^ 24 * ut)"
    by (simp only: split U_def)
qed

lemma p43: "Math_pow 2 (- 4878899596318037 / 2 ^ 51) = 8024502270083370 / 2 ^ 55"
proof -
  define t :: real where "t = 1 / 6755399441055744"
  define ez :: real where "ez = - 4878899596318037 / 2 ^ 51"
  have ez: "ez = of_int (- 3) + 5 / 6 + t"
    by (simp add: ez_def t_def)
  have t: "0 \<le> t" "t < 1" by (simp_all add: t_def)
  have lt0: "0 \<le> 1 + 2 / 3 * t" using t by simp
  note enc = pow_enclosure [OF ez lt0 two_powr_bounds_pos [OF t]]
  have "binary64 (2 powr ez) = of_int 8024502270083370 * 2 powr (of_int (- 3) - 52)"
  proof (rule binary64_eq_pos)
    have "of_int (- 3) \<le> ez" "ez < of_int (- 3) + 1"
      by (simp_all add: ez_def)
    then show "2 powr of_int (- 3) \<le> 2 powr ez" "2 powr ez < 2 powr (of_int (- 3) + 1)"
      by (simp_all only: powr_le_cancel_iff powr_less_cancel_iff one_less_numeral_iff
            semiring_norm)
    show "- 1022 \<le> (- 3 :: int)" by simp
    have "(of_int 8024502270083370 - 1 / 2) * 2 powr (of_int (- 3) - 52)
          < 2 powr of_int (- 3) * (1781797436280678609480452 / 10 ^ 24 * (1 + 2 / 3 * t))"
      by (simp add: t_def powr_minus field_simps)
    then show "(of_int 8024502270083370 - 1 / 2) * 2 powr (of_int (- 3) - 52) < 2 powr ez"
      using enc(1) by (rule less_le_trans)
    have "2 powr of_int (- 3) * (1781797436280678609480453 / 10 ^ 24 * (1 / (1 - 7 / 10 * t)))
          < (of_int 8024502270083370 + 1 / 2) * 2 powr (of_int (- 3) - 52)"
      by (simp add: t_def powr_minus field_simps)
    with enc(2) show "2 powr ez < (of_int 8024502270083370 + 1 / 2) * 2 powr (of_int (- 3) - 52)"
      by (rule le_less_trans)
  qed
  then show ?thesis
    by (simp add: Math_pow_def ez_def powr_minus field_simps)
qed


lemma p55: "Math_pow 2 (- 5254199565265579 / 2 ^ 52) = 8024502270083369 / 2 ^ 54"
proof -
  define t :: real where "t = - 1 / 13510798882111488"
  define ez :: real where "ez = - 5254199565265579 / 2 ^ 52"
  have ez: "ez = of_int (- 2) + 5 / 6 + t"
    by (simp add: ez_def t_def)
  have t: "t \<le> 0" by (simp add: t_def)
  have lt0: "0 \<le> 1 + 7 / 10 * t" by (simp add: t_def)
  note enc = pow_enclosure [OF ez lt0 two_powr_bounds_neg [OF t]]
  have "binary64 (2 powr ez) = of_int 8024502270083369 * 2 powr (of_int (- 2) - 52)"
  proof (rule binary64_eq_pos)
    have "of_int (- 2) \<le> ez" "ez < of_int (- 2) + 1"
      by (simp_all add: ez_def)
    then show "2 powr of_int (- 2) \<le> 2 powr ez" "2 powr ez < 2 powr (of_int (- 2) + 1)"
      by (simp_all only: powr_le_cancel_iff powr_less_cancel_iff one_less_numeral_iff
            semiring_norm)
    show "- 1022 \<le> (- 2 :: int)" by simp
    have "(of_int 8024502270083369 - 1 / 2) * 2 powr (of_int (- 2) - 52)
          < 2 powr of_int (- 2) * (1781797436280678609480452 / 10 ^ 24 * (1 + 7 / 10 * t))"
      by (simp add: t_def powr_minus field_simps)
    then show "(of_int 8024502270083369 - 1 / 2) * 2 powr (of_int (- 2) - 52) < 2 powr ez"
      using enc(1) by (rule less_le_trans)
    have "2 powr of_int (- 2) * (1781797436280678609480453 / 10 ^ 24 * (1 / (1 - 2 / 3 * t)))
          < (of_int 8024502270083369 + 1 / 2) * 2 powr (of_int (- 2) - 52)"
      by (simp add: t_def powr_minus field_simps)
    with enc(2) show "2 powr ez < (of_int 8024502270083369 + 1 / 2) * 2 powr (of_int (- 2) - 52)"
      by (rule le_less_trans)
  qed
  then show ?thesis
    by (simp add: Math_pow_def ez_def powr_minus field_simps)
qed

lemma f43: "double_mult 440 (8024502270083370 / 2 ^ 55) = 6896056638352896 / 2 ^ 46"
proof -
  have "binary64 (440 * (8024502270083370 / 2 ^ 55))
        = of_int 6896056638352896 * 2 powr (of_int 6 - 52)"
    by (rule binary64_eq_pos) (simp_all add: powr_minus field_simps)
  then show ?thesis
    by (simp add: double_mult_def powr_minus field_simps)
qed

lemma f55: "double_mult 440 (8024502270083369 / 2 ^ 54) = 6896056638352895 / 2 ^ 45"
proof -
  have "binary64 (440 * (8024502270083369 / 2 ^ 54))
        = of_int 6896056638352895 * 2 powr (of_int 7 - 52)"
    by (rule binary64_eq_pos) (simp_all add: powr_minus field_simps)
  then show ?thesis
    by (simp add: double_mult_def powr_minus field_simps)
qed

lemma midiToFreq_43: "midiToFreq 43 = 6896056638352896 / 2 ^ 46"
  by (simp only: midiToFreq_def e43 p43 f43)

lemma midiToFreq_55: "midiToFreq 55 = 6896056638352895 / 2 ^ 45"
  by (simp only: midiToFreq_def e55 p55 f55)

subsection \<open>Pitch\<close>

lemma KEY_TO_OFFSET_range: "KEY_TO_OFFSET k = Some off \<Longrightarrow> 0 \<le> off \<and> off \<le> 17"
  by (auto simp: KEY_TO_OFFSET_def split: if_splits)

lemma toUpperCase_g: "toUpperCase ''g'' = ''G''"
  by code_simp

lemma pitch_g_octave_2:
  "pitch (initial\<lparr>octave := 2\<rparr>) ''g'' = Some (6896056638352896 / 2 ^ 46)"
proof -
  have "keyToMidi (initial\<lparr>octave := 2\<rparr>) ''g'' = Some 43"
    by (simp add: keyToMidi_def toUpperCase_g KEY_TO_OFFSET_def)
  then have "pitch (initial\<lparr>octave := 2\<rparr>) ''g'' = Some (midiToFreq 43)"
    by (simp add: pitch_def)
  then show ?thesis by (simp only: midiToFreq_43)
qed

lemma pitch_g_octave_3:
  "pitch (initial\<lparr>octave := 3\<rparr>) ''g'' = Some (6896056638352895 / 2 ^ 45)"
proof -
  have "keyToMidi (initial\<lparr>octave := 3\<rparr>) ''g'' = Some 55"
    by (simp add: keyToMidi_def toUpperCase_g KEY_TO_OFFSET_def)
  then have "pitch (initial\<lparr>octave := 3\<rparr>) ''g'' = Some (midiToFreq 55)"
    by (simp add: pitch_def)
  then show ?thesis by (simp only: midiToFreq_55)
qed

text \<open>
  C3, as the code has it. For a key with a configured offset \<open>off\<close> and an octave \<open>ov\<close>
  from 1 to 8, the pitch is the double that line 42 computes for the MIDI number
  \<open>12 * (ov + 1) + off\<close>. It lies within one part in \<open>2 ^ 49\<close> of the equal-temperament
  frequency \<open>440 * 2 powr ((midi - 69) / 12)\<close>, the pitch one octave higher is strictly
  greater, and the ratio of the two differs from 2 by at most \<open>1 / 2 ^ 47\<close>.
\<close>

theorem pitch_octave_nearly_doubles:
  assumes "KEY_TO_OFFSET (toUpperCase k) = Some off" and "1 \<le> ov" and "ov \<le> 8"
  shows "\<exists>f f'. pitch (s\<lparr>octave := ov\<rparr>) k = Some f
           \<and> pitch (s\<lparr>octave := ov + 1\<rparr>) k = Some f'
           \<and> f = double_mult 440
                   (Math_pow 2 (double_div (real_of_int (12 * (ov + 1) + off) - 69) 12))
           \<and> \<bar>f - 440 * 2 powr ((real_of_int (12 * (ov + 1) + off) - 69) / 12)\<bar>
               \<le> 440 * 2 powr ((real_of_int (12 * (ov + 1) + off) - 69) / 12) / 2 ^ 49
           \<and> 0 < f \<and> f < f' \<and> \<bar>f' / f - 2\<bar> \<le> 1 / 2 ^ 47"
proof -
  let ?m = "12 * (ov + 1) + off"
  from KEY_TO_OFFSET_range [OF assms(1)] assms(2,3)
  have r: "24 \<le> ?m" "?m \<le> 125" by simp_all
  have a: "pitch (s\<lparr>octave := ov\<rparr>) k = Some (midiToFreq ?m)"
    using assms(1) by (simp add: pitch_def keyToMidi_def)
  have m12: "12 * (ov + 1 + 1) + off = ?m + 12" by simp
  have "pitch (s\<lparr>octave := ov + 1\<rparr>) k = Some (midiToFreq (12 * (ov + 1 + 1) + off))"
    using assms(1) by (simp add: pitch_def keyToMidi_def)
  then have b: "pitch (s\<lparr>octave := ov + 1\<rparr>) k = Some (midiToFreq (?m + 12))"
    by (simp only: m12)
  have c: "midiToFreq ?m = double_mult 440
             (Math_pow 2 (double_div (real_of_int ?m - 69) 12))"
    by (simp only: midiToFreq_def)
  from a b c midiToFreq_octave_step [OF r] show ?thesis by blast
qed

theorem pitch_octave_nearly_doubles_witness:
  "KEY_TO_OFFSET (toUpperCase ''g'') = Some 7 \<and> (1::int) \<le> 2 \<and> (2::int) \<le> 8
   \<and> pitch (initial\<lparr>octave := 2\<rparr>) ''g'' = Some (6896056638352896 / 2 ^ 46)
   \<and> pitch (initial\<lparr>octave := 3\<rparr>) ''g'' = Some (6896056638352895 / 2 ^ 45)
   \<and> (6896056638352896 / 2 ^ 46 :: real) < 6896056638352895 / 2 ^ 45
   \<and> \<bar>(6896056638352895 / 2 ^ 45) / (6896056638352896 / 2 ^ 46) - (2::real)\<bar> \<le> 1 / 2 ^ 47"
proof -
  have h: "KEY_TO_OFFSET (toUpperCase ''g'') = Some 7"
    by (simp add: toUpperCase_g KEY_TO_OFFSET_def)
  have h2: "(1::int) \<le> 2" "(2::int) \<le> 8" by simp_all
  from pitch_octave_nearly_doubles [OF h h2, of initial]
  obtain f f' where p: "pitch (initial\<lparr>octave := 2\<rparr>) ''g'' = Some f"
    "pitch (initial\<lparr>octave := 2 + 1\<rparr>) ''g'' = Some f'"
    "f < f'" "\<bar>f' / f - 2\<bar> \<le> 1 / 2 ^ 47"
    by blast
  from p(1) pitch_g_octave_2 have f: "f = 6896056638352896 / 2 ^ 46" by simp
  have "pitch (initial\<lparr>octave := 2 + 1\<rparr>) ''g'' = pitch (initial\<lparr>octave := 3\<rparr>) ''g''"
    by simp
  with p(2) pitch_g_octave_3 have f': "f' = 6896056638352895 / 2 ^ 45" by simp
  from p(3,4) have "(6896056638352896 / 2 ^ 46 :: real) < 6896056638352895 / 2 ^ 45"
    "\<bar>(6896056638352895 / 2 ^ 45) / (6896056638352896 / 2 ^ 46) - (2::real)\<bar> \<le> 1 / 2 ^ 47"
    by (simp_all only: f f')
  with h h2 pitch_g_octave_2 pitch_g_octave_3 show ?thesis by blast
qed

text \<open>
  The specification gives the ratio as exactly 2. For the key \<^verbatim>\<open>G\<close> the code computes
  \<open>6896056638352896 / 2 ^ 46\<close> (97.99885899543733 Hz) at octave 2 and
  \<open>6896056638352895 / 2 ^ 45\<close> (195.99771799087463 Hz) at octave 3: the second is one
  spacing of doubles below twice the first.
\<close>

theorem octave_ratio_not_two:
  "pitch (initial\<lparr>octave := 2\<rparr>) ''g'' = Some (6896056638352896 / 2 ^ 46)
   \<and> pitch (initial\<lparr>octave := 3\<rparr>) ''g'' = Some (6896056638352895 / 2 ^ 45)
   \<and> the (pitch (initial\<lparr>octave := 3\<rparr>) ''g'') / the (pitch (initial\<lparr>octave := 2\<rparr>) ''g'')
       \<noteq> 2"
proof -
  have "(6896056638352895 / 2 ^ 45) / (6896056638352896 / 2 ^ 46) \<noteq> (2::real)"
    by simp
  then show ?thesis
    by (simp only: pitch_g_octave_2 pitch_g_octave_3 option.sel) simp
qed

subsection \<open>Unmapped keys\<close>

text \<open>
  C6. A note-on for a key string whose upper-cased form has no entry in
  \<^verbatim>\<open>KEY_TO_OFFSET\<close> changes nothing: \<open>startNote\<close> returns the state it was given (no
  voice is created, the active voices are the same), and the function has no failing
  branch.
\<close>

theorem startNote_unmapped_ignored:
  assumes "KEY_TO_OFFSET (toUpperCase k) = None"
  shows "startNote k s = s"
  using assms by (simp add: startNote_def keyToMidi_def toUpperCase_idem Let_def)

theorem startNote_unmapped_ignored_witness:
  "KEY_TO_OFFSET (toUpperCase ''q'') = None \<and> startNote ''q'' initial = initial"
proof -
  have h: "KEY_TO_OFFSET (toUpperCase ''q'') = None"
    by (simp add: toUpperCase_q KEY_TO_OFFSET_def)
  from h startNote_unmapped_ignored [OF h, of initial] show ?thesis by simp
qed

subsection \<open>Starting notes\<close>

lemma startNote_active:
  "map_of (activeVoices s) (toUpperCase k) \<noteq> None \<Longrightarrow> startNote k s = s"
  by (simp add: startNote_def Let_def)

lemma startNote_fresh:
  assumes "map_of (activeVoices s) (toUpperCase k) = None"
      and "KEY_TO_OFFSET (toUpperCase k) = Some off"
  shows "startNote k s =
           highlightKey (toUpperCase k) True
             ((ensureAudio s)\<lparr> heap := (heap s)(next_voice s \<mapsto>
                    new_Voice (midiToFreq (12 * (octave s + 1) + off)) (waveform s) (volume s)),
                 next_voice := Suc (next_voice s),
                 activeVoices := AList.update (toUpperCase k) (next_voice s) (activeVoices s) \<rparr>)"
  using assms
  by (simp add: startNote_def keyToMidi_def toUpperCase_idem Let_def ensureAudio_def)

lemma startNote_twice: "startNote k (startNote k s) = startNote k s"
proof (cases "map_of (activeVoices s) (toUpperCase k) = None")
  case False
  then show ?thesis by (simp add: startNote_active)
next
  case n: True
  show ?thesis
  proof (cases "KEY_TO_OFFSET (toUpperCase k)")
    case None
    then show ?thesis
      by (simp add: startNote_def keyToMidi_def toUpperCase_idem Let_def)
  next
    case (Some off)
    have "map_of (activeVoices (startNote k s)) (toUpperCase k) \<noteq> None"
      by (simp add: startNote_fresh [OF n Some] highlightKey_def update_conv')
    then show ?thesis by (rule startNote_active)
  qed
qed

lemma count_key_distinct:
  "distinct (map fst al) \<Longrightarrow> map_of al k = Some v
   \<Longrightarrow> length (filter (\<lambda>p. fst p = k) al) = 1"
proof (induction al)
  case Nil
  then show ?case by simp
next
  case (Cons p al)
  show ?case
  proof (cases "fst p = k")
    case True
    with Cons.prems have "k \<notin> fst ` set al" by auto
    then have "filter (\<lambda>p. fst p = k) al = []"
      by (auto simp: filter_empty_conv)
    with True show ?thesis by simp
  next
    case False
    with Cons show ?thesis by (cases p) auto
  qed
qed

lemma initial_A_fresh: "map_of (activeVoices initial) (toUpperCase ''a'') = None"
  by (simp add: initial_def)

lemma offset_a: "KEY_TO_OFFSET (toUpperCase ''a'') = Some 0"
  by (simp add: toUpperCase_a KEY_TO_OFFSET_def)

text \<open>
  C4. \<open>startNote\<close> on a key that already has an active voice returns the state
  unchanged, so a second \<open>startNote\<close> right after a first one changes nothing: at most
  one \<^verbatim>\<open>Voice\<close> has been constructed, and for a mapped key the map of active voices
  (whose keys are distinct) holds exactly one entry for the key.
\<close>

theorem startNote_idempotent:
  "(map_of (activeVoices s) (toUpperCase k) \<noteq> None \<longrightarrow> startNote k s = s)
   \<and> startNote k (startNote k s) = startNote k s
   \<and> next_voice (startNote k (startNote k s)) \<le> Suc (next_voice s)
   \<and> (distinct (map fst (activeVoices s)) \<and> KEY_TO_OFFSET (toUpperCase k) \<noteq> None
        \<longrightarrow> length (filter (\<lambda>p. fst p = toUpperCase k)
                     (activeVoices (startNote k (startNote k s)))) = 1)"
proof -
  have a: "map_of (activeVoices s) (toUpperCase k) \<noteq> None \<longrightarrow> startNote k s = s"
    by (simp add: startNote_active)
  have b: "startNote k (startNote k s) = startNote k s"
    by (rule startNote_twice)
  have c: "next_voice (startNote k s) \<le> Suc (next_voice s)"
    by (simp add: startNote_def Let_def highlightKey_def ensureAudio_def split: option.splits)
  have d: "length (filter (\<lambda>p. fst p = toUpperCase k) (activeVoices (startNote k s))) = 1"
    if dist: "distinct (map fst (activeVoices s))" and m: "KEY_TO_OFFSET (toUpperCase k) \<noteq> None"
  proof -
    from m obtain off where off: "KEY_TO_OFFSET (toUpperCase k) = Some off" by blast
    have d': "distinct (map fst (activeVoices (startNote k s)))"
      using dist
      by (simp add: startNote_def Let_def highlightKey_def ensureAudio_def distinct_update
               split: option.splits)
    have "\<exists>a. map_of (activeVoices (startNote k s)) (toUpperCase k) = Some a"
    proof (cases "map_of (activeVoices s) (toUpperCase k) = None")
      case True
      then show ?thesis
        by (simp add: startNote_fresh [OF True off] highlightKey_def update_conv')
    next
      case False
      then show ?thesis by (simp add: startNote_active)
    qed
    then obtain a where "map_of (activeVoices (startNote k s)) (toUpperCase k) = Some a" ..
    with d' show ?thesis by (rule count_key_distinct)
  qed
  from a b c d show ?thesis by (simp only: b) blast
qed

theorem startNote_idempotent_witness:
  "map_of (activeVoices (startNote ''a'' initial)) (toUpperCase ''a'') \<noteq> None
   \<and> distinct (map fst (activeVoices (startNote ''a'' initial)))
   \<and> KEY_TO_OFFSET (toUpperCase ''a'') \<noteq> None
   \<and> startNote ''a'' (startNote ''a'' initial) = startNote ''a'' initial
   \<and> activeVoices (startNote ''a'' (startNote ''a'' initial)) = [(''A'', 0)]
   \<and> length (filter (\<lambda>p. fst p = toUpperCase ''a'')
               (activeVoices (startNote ''a'' (startNote ''a'' (startNote ''a'' initial))))) = 1"
proof -
  let ?s1 = "startNote ''a'' initial"
  have av: "activeVoices ?s1 = [(''A'', 0)]"
    by (subst startNote_fresh [OF initial_A_fresh offset_a])
       (simp add: highlightKey_def toUpperCase_a initial_def)
  have h1: "map_of (activeVoices ?s1) (toUpperCase ''a'') \<noteq> None"
    by (simp add: av toUpperCase_a)
  have h2: "distinct (map fst (activeVoices ?s1))"
    by (simp add: av)
  have h3: "KEY_TO_OFFSET (toUpperCase ''a'') \<noteq> None"
    by (simp add: offset_a)
  from startNote_idempotent [of ?s1 "''a''"] h1 h2 h3
  have "startNote ''a'' ?s1 = ?s1
        \<and> length (filter (\<lambda>p. fst p = toUpperCase ''a'')
                    (activeVoices (startNote ''a'' (startNote ''a'' ?s1)))) = 1"
    by blast
  with h1 h2 h3 av show ?thesis by (simp add: toUpperCase_a)
qed

lemma toUpperCase_s: "toUpperCase ''s'' = ''S''"
  by code_simp

lemma toUpperCase_S: "toUpperCase ''S'' = ''S''"
  by code_simp

lemmas eval_defs = startNote_def stopNote_def keyToMidi_def KEY_TO_OFFSET_def Let_def
  highlightKey_def ensureAudio_def setSustain_def initial_def Voice_release_def new_Voice_def
  allNotesOff_def clearAllHighlights_def
  toUpperCase_a toUpperCase_A toUpperCase_s toUpperCase_S

subsection \<open>Releasing voices\<close>

lemma Voice_release_frame:
  "Voice_release a s =
     s\<lparr> heap := heap (Voice_release a s), timers := timers (Voice_release a s) \<rparr>"
  by (simp add: Voice_release_def split: option.splits)

lemma Voice_release_heap:
  "heap (Voice_release b s) a =
     (if a = b
      then map_option (\<lambda>v. if ended v then v else v\<lparr>release_scheduled := True\<rparr>) (heap s b)
      else heap s a)"
  by (simp add: Voice_release_def split: option.splits)

lemma Voice_release_timers:
  "set (timers (Voice_release b s)) =
     set (timers s) \<union> {a. a = b \<and> (\<exists>v. heap s a = Some v \<and> \<not> ended v)}"
  by (auto simp add: Voice_release_def split: option.splits)

lemma Voice_release_live:
  "(\<exists>v. heap (Voice_release b s) a = Some v \<and> \<not> ended v)
   = (\<exists>v. heap s a = Some v \<and> \<not> ended v)"
  by (auto simp add: Voice_release_heap split: if_splits)

lemma fold_release_timers:
  "set (timers (fold (\<lambda>(k, a). Voice_release a) al s)) =
     set (timers s) \<union> {a \<in> snd ` set al. \<exists>v. heap s a = Some v \<and> \<not> ended v}"
proof (induction al arbitrary: s)
  case Nil
  then show ?case by simp
next
  case (Cons p al)
  obtain k b where p: "p = (k, b)" by (cases p)
  have "set (timers (fold (\<lambda>(k, a). Voice_release a) (p # al) s))
        = set (timers (Voice_release b s))
          \<union> {a \<in> snd ` set al. \<exists>v. heap (Voice_release b s) a = Some v \<and> \<not> ended v}"
    using Cons.IH [of "Voice_release b s"] by (simp add: p)
  also have "\<dots> = set (timers s) \<union> {a. a = b \<and> (\<exists>v. heap s a = Some v \<and> \<not> ended v)}
          \<union> {a \<in> snd ` set al. \<exists>v. heap s a = Some v \<and> \<not> ended v}"
    by (simp only: Voice_release_timers Voice_release_live)
  also have "\<dots> = set (timers s)
          \<union> {a \<in> snd ` set (p # al). \<exists>v. heap s a = Some v \<and> \<not> ended v}"
    by (auto simp: p)
  finally show ?case .
qed

lemma fold_release_other:
  "a \<notin> snd ` set al \<Longrightarrow> heap (fold (\<lambda>(k, a). Voice_release a) al t) a = heap t a"
proof (induction al arbitrary: t)
  case Nil
  then show ?case by simp
next
  case (Cons q al)
  obtain k c where q: "q = (k, c)" by (cases q)
  with Cons.prems have "a \<noteq> c" "a \<notin> snd ` set al" by auto
  with Cons.IH [of "Voice_release c t"] show ?case
    by (simp add: q Voice_release_heap)
qed

lemma fold_release_scheduled:
  "a \<in> snd ` set al \<Longrightarrow> heap s a = Some v \<Longrightarrow> \<not> ended v
   \<Longrightarrow> \<exists>v'. heap (fold (\<lambda>(k, a). Voice_release a) al s) a = Some v' \<and> release_scheduled v'"
proof (induction al arbitrary: s v)
  case Nil
  then show ?case by simp
next
  case (Cons p al)
  obtain k b where p: "p = (k, b)" by (cases p)
  show ?case
  proof (cases "a \<in> snd ` set al")
    case True
    from Cons.prems(2,3) obtain w where w: "heap (Voice_release b s) a = Some w" "\<not> ended w"
      using Voice_release_live [of b s a] by blast
    from Cons.IH [OF True w] show ?thesis by (simp add: p)
  next
    case False
    with Cons.prems(1) p have ab: "a = b" by auto
    have "heap (fold (\<lambda>(k, a). Voice_release a) (p # al) s) a = heap (Voice_release b s) a"
      by (simp add: p fold_release_other [OF False])
    also have "\<dots> = Some (v\<lparr>release_scheduled := True\<rparr>)"
      using Cons.prems(2,3) ab by (simp add: Voice_release_heap)
    finally show ?thesis by simp
  qed
qed

text \<open>
  C5. Whatever the state (sustain on or off, recording or not, any voices active),
  \<open>allNotesOff\<close> leaves the map of active voices empty and the set of highlighted
  keys empty, and every voice that was in the map and had not ended has had its
  release scheduled: its stop timer is pending and its gain ramps down.
\<close>

theorem allNotesOff_clears:
  "activeVoices (allNotesOff s) = []
   \<and> downSet (allNotesOff s) = {}
   \<and> (\<forall>a \<in> snd ` set (activeVoices s). \<forall>v. heap s a = Some v \<and> \<not> ended v \<longrightarrow>
         a \<in> set (timers (allNotesOff s))
         \<and> (\<exists>v'. heap (allNotesOff s) a = Some v' \<and> release_scheduled v'))"
proof -
  let ?s1 = "fold (\<lambda>(k, a). Voice_release a) (activeVoices s) s"
  have a: "activeVoices (allNotesOff s) = []"
    by (simp add: allNotesOff_def Let_def clearAllHighlights_def)
  have b: "downSet (allNotesOff s) = {}"
    by (simp add: allNotesOff_def Let_def clearAllHighlights_def)
  have t: "timers (allNotesOff s) = timers ?s1"
    by (simp add: allNotesOff_def Let_def clearAllHighlights_def)
  have h: "heap (allNotesOff s) = heap ?s1"
    by (simp add: allNotesOff_def Let_def clearAllHighlights_def)
  have c: "a \<in> set (timers (allNotesOff s))
           \<and> (\<exists>v'. heap (allNotesOff s) a = Some v' \<and> release_scheduled v')"
    if "a \<in> snd ` set (activeVoices s)" "heap s a = Some v" "\<not> ended v" for a v
    using that fold_release_scheduled [OF that]
    by (simp only: t h fold_release_timers) blast
  from a b c show ?thesis by blast
qed

lemma held_chord_eval:
  "activeVoices held_chord = [(''A'', 0), (''S'', 1)]
   \<and> downSet held_chord = {''S'', ''A''}
   \<and> sustain held_chord
   \<and> heap held_chord 1 = Some (new_Voice (midiToFreq 62) Sine 0.35)"
  by (simp add: held_chord_def eval_defs)

theorem allNotesOff_clears_witness:
  "1 \<in> snd ` set (activeVoices held_chord)
   \<and> heap held_chord 1 = Some (new_Voice (midiToFreq 62) Sine 0.35)
   \<and> \<not> ended (new_Voice (midiToFreq 62) Sine 0.35)
   \<and> sustain held_chord
   \<and> activeVoices (allNotesOff held_chord) = []
   \<and> downSet (allNotesOff held_chord) = {}
   \<and> 1 \<in> set (timers (allNotesOff held_chord))
   \<and> (\<exists>v'. heap (allNotesOff held_chord) 1 = Some v' \<and> release_scheduled v')"
proof -
  have h1: "1 \<in> snd ` set (activeVoices held_chord)"
    by (simp add: held_chord_eval)
  have h2: "heap held_chord 1 = Some (new_Voice (midiToFreq 62) Sine 0.35)"
    using held_chord_eval by blast
  have h3: "\<not> ended (new_Voice (midiToFreq 62) Sine 0.35)"
    by (simp add: new_Voice_def)
  from allNotesOff_clears [of held_chord] h1 h2 h3
  have "activeVoices (allNotesOff held_chord) = []
        \<and> downSet (allNotesOff held_chord) = {}
        \<and> 1 \<in> set (timers (allNotesOff held_chord))
        \<and> (\<exists>v'. heap (allNotesOff held_chord) 1 = Some v' \<and> release_scheduled v')"
    by blast
  with h1 h2 h3 held_chord_eval show ?thesis by blast
qed

subsection \<open>Sustain\<close>

lemma stopNote_sustained: "sustain s \<Longrightarrow> stopNote k s = s"
  by (simp add: stopNote_def Let_def split: option.splits)

lemma setSustain_frame:
  "heap (setSustain b s) = heap s \<and> activeVoices (setSustain b s) = activeVoices s
   \<and> timers (setSustain b s) = timers s \<and> downSet (setSustain b s) = downSet s"
  by (simp add: setSustain_def)

text \<open>
  C1. With sustain on, \<open>startNote\<close> then \<open>stopNote\<close> for \<^verbatim>\<open>A\<close> leaves the voice of
  \<^verbatim>\<open>A\<close> in the map of active voices. Turning sustain off afterwards releases
  nothing: the voice is still in the map, no release has been scheduled for it, no stop
  timer is pending and the key is still highlighted. \<open>stopNote\<close> keeps no mark of the
  deferred key, and \<open>setSustain\<close> only writes the flag.
\<close>

theorem sustain_off_releases_nothing:
  "activeVoices (stopNote ''a'' (startNote ''a'' (setSustain True initial))) = [(''A'', 0)]
   \<and> sustain sustain_stuck = False
   \<and> activeVoices sustain_stuck = [(''A'', 0)]
   \<and> heap sustain_stuck 0 = Some (new_Voice (midiToFreq 60) Sine 0.35)
   \<and> release_scheduled (new_Voice (midiToFreq 60) Sine 0.35) = False
   \<and> timers sustain_stuck = []
   \<and> downSet sustain_stuck = {''A''}"
  by (simp add: sustain_stuck_def eval_defs)

subsection \<open>Configuration changes\<close>

lemma startNote_heap_other:
  "a \<noteq> next_voice s \<Longrightarrow> heap (startNote k s) a = heap s a"
  by (simp add: startNote_def Let_def highlightKey_def ensureAudio_def split: option.splits)

lemma startNote_heap_new:
  assumes "map_of (activeVoices s) (toUpperCase k) = None"
      and "KEY_TO_OFFSET (toUpperCase k) = Some off"
  shows "heap (startNote k s) (next_voice s) =
           Some (new_Voice (midiToFreq (12 * (octave s + 1) + off)) (waveform s) (volume s))"
  by (simp add: startNote_fresh [OF assms] highlightKey_def)

text \<open>
  C7. \<open>setOctave\<close>, \<open>setWaveform\<close> and \<open>setVolume\<close> leave the heap of voices and the
  map of active voices as they are, so the frequency, the oscillator types and the
  envelope levels of every existing voice are unchanged. A \<open>startNote\<close> after the
  change leaves every existing voice unchanged too, and the voice it constructs for a
  mapped key that is not sounding carries the new octave, waveform or volume.
\<close>

theorem config_change_frame:
  "heap (setOctave f s) = heap s \<and> activeVoices (setOctave f s) = activeVoices s
   \<and> heap (setWaveform w s) = heap s \<and> activeVoices (setWaveform w s) = activeVoices s
   \<and> heap (setVolume v s) = heap s \<and> activeVoices (setVolume v s) = activeVoices s
   \<and> (a \<noteq> next_voice s \<longrightarrow>
         heap (startNote k (setOctave f s)) a = heap s a
         \<and> heap (startNote k (setWaveform w s)) a = heap s a
         \<and> heap (startNote k (setVolume v s)) a = heap s a)
   \<and> (map_of (activeVoices s) (toUpperCase k) = None
       \<and> KEY_TO_OFFSET (toUpperCase k) = Some off \<longrightarrow>
         heap (startNote k (setOctave f s)) (next_voice s) =
           Some (new_Voice (midiToFreq (12 * (f (octave s) + 1) + off)) (waveform s) (volume s))
         \<and> heap (startNote k (setWaveform w s)) (next_voice s) =
           Some (new_Voice (midiToFreq (12 * (octave s + 1) + off)) w (volume s))
         \<and> heap (startNote k (setVolume v s)) (next_voice s) =
           Some (new_Voice (midiToFreq (12 * (octave s + 1) + off)) (waveform s) v))"
proof -
  have fr: "heap (setOctave f s) = heap s \<and> activeVoices (setOctave f s) = activeVoices s
     \<and> heap (setWaveform w s) = heap s \<and> activeVoices (setWaveform w s) = activeVoices s
     \<and> heap (setVolume v s) = heap s \<and> activeVoices (setVolume v s) = activeVoices s"
    by (simp add: setOctave_def setWaveform_def setVolume_def)
  have old: "heap (startNote k (setOctave f s)) a = heap s a
       \<and> heap (startNote k (setWaveform w s)) a = heap s a
       \<and> heap (startNote k (setVolume v s)) a = heap s a"
    if "a \<noteq> next_voice s"
  proof -
    have "a \<noteq> next_voice (setOctave f s)" "a \<noteq> next_voice (setWaveform w s)"
      "a \<noteq> next_voice (setVolume v s)"
      using that by (simp_all add: setOctave_def setWaveform_def setVolume_def)
    then show ?thesis
      using fr by (simp add: startNote_heap_other)
  qed
  have new: "heap (startNote k (setOctave f s)) (next_voice s) =
           Some (new_Voice (midiToFreq (12 * (f (octave s) + 1) + off)) (waveform s) (volume s))
         \<and> heap (startNote k (setWaveform w s)) (next_voice s) =
           Some (new_Voice (midiToFreq (12 * (octave s + 1) + off)) w (volume s))
         \<and> heap (startNote k (setVolume v s)) (next_voice s) =
           Some (new_Voice (midiToFreq (12 * (octave s + 1) + off)) (waveform s) v)"
    if n: "map_of (activeVoices s) (toUpperCase k) = None"
      and m: "KEY_TO_OFFSET (toUpperCase k) = Some off"
  proof -
    have n1: "map_of (activeVoices (setOctave f s)) (toUpperCase k) = None"
      and n2: "map_of (activeVoices (setWaveform w s)) (toUpperCase k) = None"
      and n3: "map_of (activeVoices (setVolume v s)) (toUpperCase k) = None"
      using n by (simp_all add: setOctave_def setWaveform_def setVolume_def)
    from startNote_heap_new [OF n1 m] startNote_heap_new [OF n2 m] startNote_heap_new [OF n3 m]
    show ?thesis
      by (simp add: setOctave_def setWaveform_def setVolume_def)
  qed
  from fr old new show ?thesis by blast
qed

lemma one_note_eval:
  "activeVoices one_note = [(''A'', 0)] \<and> next_voice one_note = 1
   \<and> octave one_note = 4 \<and> waveform one_note = Sine \<and> volume one_note = 0.35
   \<and> heap one_note 0 = Some (new_Voice (midiToFreq 60) Sine 0.35)"
  by (simp add: one_note_def eval_defs)

lemma offset_s: "KEY_TO_OFFSET (toUpperCase ''s'') = Some 2"
  by (simp add: toUpperCase_s KEY_TO_OFFSET_def)

theorem config_change_frame_witness:
  "0 \<noteq> next_voice one_note
   \<and> map_of (activeVoices one_note) (toUpperCase ''s'') = None
   \<and> KEY_TO_OFFSET (toUpperCase ''s'') = Some 2
   \<and> heap (startNote ''s'' (setOctave octave_up one_note)) 0
       = Some (new_Voice (midiToFreq 60) Sine 0.35)
   \<and> heap (startNote ''s'' (setOctave octave_up one_note)) 1
       = Some (new_Voice (midiToFreq 74) Sine 0.35)
   \<and> heap (startNote ''s'' (setWaveform Square one_note)) 1
       = Some (new_Voice (midiToFreq 62) Square 0.35)
   \<and> heap (startNote ''s'' (setVolume 1 one_note)) 1
       = Some (new_Voice (midiToFreq 62) Sine 1)"
proof -
  have h1: "0 \<noteq> next_voice one_note"
    by (simp add: one_note_eval)
  have h2: "map_of (activeVoices one_note) (toUpperCase ''s'') = None"
    by (simp add: one_note_eval toUpperCase_s)
  note h3 = offset_s
  from config_change_frame [of octave_up one_note Square 1 0 "''s''" 2] h1 h2 h3
  have "heap (startNote ''s'' (setOctave octave_up one_note)) 0 = heap one_note 0
      \<and> heap (startNote ''s'' (setOctave octave_up one_note)) (next_voice one_note) =
           Some (new_Voice (midiToFreq (12 * (octave_up (octave one_note) + 1) + 2))
                   (waveform one_note) (volume one_note))
      \<and> heap (startNote ''s'' (setWaveform Square one_note)) (next_voice one_note) =
           Some (new_Voice (midiToFreq (12 * (octave one_note + 1) + 2)) Square (volume one_note))
      \<and> heap (startNote ''s'' (setVolume 1 one_note)) (next_voice one_note) =
           Some (new_Voice (midiToFreq (12 * (octave one_note + 1) + 2)) (waveform one_note) 1)"
    by blast
  with h1 h2 h3 show ?thesis
    by (simp add: one_note_eval octave_up_def)
qed

subsection \<open>Recording\<close>

lemma pushRecord_started:
  "recordStartRef s = Some t0 \<Longrightarrow>
     pushRecord k ty c1 c2 s =
       s\<lparr> recording := recording s @
            [\<lparr> ev_key = toUpperCase k, ev_type = ty, ev_t = c2 - t0, ev_scheduled = None \<rparr>] \<rparr>"
  by (simp add: pushRecord_def)

lemma pushRecord_first:
  "recordStartRef s = None \<Longrightarrow>
     pushRecord k ty c1 c2 s =
       s\<lparr> recordStartRef := Some c1,
          recording := recording s @
            [\<lparr> ev_key = toUpperCase k, ev_type = ty, ev_t = c2 - c1, ev_scheduled = None \<rparr>] \<rparr>"
  by (simp add: pushRecord_def)

lemma capture_started:
  "recordStartRef s = Some t0 \<Longrightarrow>
     recordStartRef (capture es s) = Some t0
     \<and> map ev_t (recording (capture es s))
         = map ev_t (recording s) @ map (\<lambda>e. reading e - t0) es"
proof (induction es arbitrary: s)
  case Nil
  then show ?case by simp
next
  case (Cons e es)
  obtain k ty c1 c2 where e: "e = (k, ty, c1, c2)" by (cases e)
  let ?s1 = "pushRecord k ty c1 c2 s"
  have s1: "recordStartRef ?s1 = Some t0"
    "map ev_t (recording ?s1) = map ev_t (recording s) @ [c2 - t0]"
    using Cons.prems by (simp_all add: pushRecord_started)
  from Cons.IH [OF s1(1)] s1(2) show ?case
    by (simp add: e reading_def)
qed

lemma sorted_shift: "sorted xs \<Longrightarrow> sorted (map (\<lambda>c. c - (t0::real)) xs)"
  by (induction xs) auto

text \<open>
  C8, as the code has it. \<open>startRecording\<close> empties the event sequence and clears the
  start timestamp. The first capture afterwards stores its first clock reading \<open>c1\<close> as
  the start timestamp, and its offset is its second clock reading \<open>c2\<close> minus \<open>c1\<close>:
  zero when the clock did not advance between the two reads. Every later event's
  offset is its clock reading minus the stored start timestamp. When the clock readings
  never decrease, the offsets are non-negative and non-decreasing in insertion order.
\<close>

theorem recording_offsets:
  "recording (startRecording s) = []
   \<and> recordStartRef (startRecording s) = None
   \<and> recordStartRef (capture ((k, ty, c1, c2) # es) (startRecording s)) = Some c1
   \<and> map ev_t (recording (capture ((k, ty, c1, c2) # es) (startRecording s)))
       = (c2 - c1) # map (\<lambda>e. reading e - c1) es
   \<and> (c1 = c2 \<longrightarrow>
         ev_t (hd (recording (capture ((k, ty, c1, c2) # es) (startRecording s)))) = 0)
   \<and> (c1 \<le> c2 \<and> sorted (c2 # map reading es) \<longrightarrow>
         sorted (map ev_t (recording (capture ((k, ty, c1, c2) # es) (startRecording s))))
         \<and> list_all (\<lambda>e. 0 \<le> ev_t e)
             (recording (capture ((k, ty, c1, c2) # es) (startRecording s))))"
proof -
  let ?s0 = "startRecording s"
  let ?s1 = "pushRecord k ty c1 c2 ?s0"
  let ?r = "recording (capture ((k, ty, c1, c2) # es) ?s0)"
  have a: "recording ?s0 = []" "recordStartRef ?s0 = None"
    by (simp_all add: startRecording_def)
  have s1: "recordStartRef ?s1 = Some c1" "map ev_t (recording ?s1) = [c2 - c1]"
    by (simp_all add: pushRecord_first [OF a(2)] a(1))
  from capture_started [OF s1(1), of es] s1(2)
  have b: "recordStartRef (capture ((k, ty, c1, c2) # es) ?s0) = Some c1"
    and c: "map ev_t ?r = (c2 - c1) # map (\<lambda>e. reading e - c1) es"
    by simp_all
  have d: "ev_t (hd ?r) = 0" if "c1 = c2"
  proof -
    from c have "?r \<noteq> []" by auto
    then have "ev_t (hd ?r) = hd (map ev_t ?r)" by (simp add: hd_map)
    with c that show ?thesis by simp
  qed
  have e: "sorted (map ev_t ?r) \<and> list_all (\<lambda>e. 0 \<le> ev_t e) ?r"
    if le: "c1 \<le> c2" and so: "sorted (c2 # map reading es)"
  proof -
    have eq: "map ev_t ?r = map (\<lambda>c. c - c1) (c2 # map reading es)"
      by (simp only: c) (simp add: comp_def)
    from so have srt: "sorted (map ev_t ?r)"
      by (simp only: eq sorted_shift)
    have "\<forall>x \<in> set (c2 # map reading es). c1 \<le> x"
      using le so by auto
    then have "\<forall>y \<in> set (map ev_t ?r). 0 \<le> y"
      by (simp only: eq) auto
    then have "list_all (\<lambda>e. 0 \<le> ev_t e) ?r"
      by (simp add: list_all_iff)
    with srt show ?thesis ..
  qed
  from a b c d e show ?thesis by blast
qed

theorem recording_offsets_witness:
  "(1000::real) \<le> 1000
   \<and> sorted (1000 # map reading [(''a'', Up, 1003, 1003)])
   \<and> map ev_t (recording (capture [(''a'', Down, 1000, 1000), (''a'', Up, 1003, 1003)]
                            (startRecording one_note))) = [0, 3]
   \<and> sorted (map ev_t (recording (capture [(''a'', Down, 1000, 1000), (''a'', Up, 1003, 1003)]
                                    (startRecording one_note))))"
proof -
  have h1: "(1000::real) = 1000" "(1000::real) \<le> 1000"
    by simp_all
  have h2: "sorted (1000 # map reading [(''a'', Up, 1003, 1003)])"
    by (simp add: reading_def)
  from recording_offsets [of one_note "''a''" Down 1000 1000 "[(''a'', Up, 1003, 1003)]"] h1 h2
  have "map ev_t (recording (capture [(''a'', Down, 1000, 1000), (''a'', Up, 1003, 1003)]
                               (startRecording one_note)))
          = (1000 - 1000) # map (\<lambda>e. reading e - 1000) [(''a'', Up, 1003, 1003)]
        \<and> sorted (map ev_t (recording (capture [(''a'', Down, 1000, 1000),
                   (''a'', Up, 1003, 1003)] (startRecording one_note))))"
    by blast
  with h1 h2 show ?thesis by (simp add: reading_def)
qed

text \<open>
  The specification gives the first event the offset 0 whatever the clock does. When
  the clock advances between the two reads of the first \<open>pushRecord\<close>, here from 1000
  to 1001, the first offset is 1.
\<close>

theorem first_offset_not_zero:
  "recording (startRecording initial) = []
   \<and> map ev_t (recording ticking_take) = [1]
   \<and> ev_t (hd (recording ticking_take)) \<noteq> 0"
  by (simp add: ticking_take_def pushRecord_def startRecording_def initial_def)

subsection \<open>Capture on key-down\<close>

lemma startNote_recorder:
  "recording (startNote k s) = recording s \<and> isRecording (startNote k s) = isRecording s
   \<and> recordStartRef (startNote k s) = recordStartRef s"
  by (simp add: startNote_def Let_def highlightKey_def ensureAudio_def split: option.splits)

lemma pushRecord_event:
  "\<exists>t. recording (pushRecord k ty c1 c2 s) =
          recording s @ [\<lparr> ev_key = toUpperCase k, ev_type = ty, ev_t = t, ev_scheduled = None \<rparr>]"
  by (simp add: pushRecord_def Let_def)

lemma pushRecord_frame:
  "isRecording (pushRecord k ty c1 c2 s) = isRecording s
   \<and> activeVoices (pushRecord k ty c1 c2 s) = activeVoices s
   \<and> heap (pushRecord k ty c1 c2 s) = heap s
   \<and> next_voice (pushRecord k ty c1 c2 s) = next_voice s"
  by (simp add: pushRecord_def Let_def)

lemma space_unmapped: "KEY_TO_OFFSET '' '' = None"
  by (simp add: KEY_TO_OFFSET_def)

lemma bracket_unmapped: "KEY_TO_OFFSET '']'' = None \<and> KEY_TO_OFFSET ''['' = None"
  by (simp add: KEY_TO_OFFSET_def)

lemma handleDown_mapped:
  assumes "KEY_TO_OFFSET (toUpperCase k) \<noteq> None"
  shows "handleDown k c1 c2 s =
           (if isRecording s
            then pushRecord (toUpperCase k) Down c1 c2 (startNote (toUpperCase k) s)
            else startNote (toUpperCase k) s)"
proof -
  from assms space_unmapped bracket_unmapped
  have "toUpperCase k \<noteq> '' ''" "toUpperCase k \<noteq> '']''" "toUpperCase k \<noteq> ''[''"
    by auto
  with assms show ?thesis
    by (simp add: handleDown_def Let_def startNote_recorder)
qed

text \<open>
  C10. While recording is on, a key-down on a mapped key appends one \<^verbatim>\<open>down\<close> event
  for the key, whether or not the key has an active voice. When it has one, the
  key-down starts no voice (the map of active voices and the heap stay as they are) and
  still appends the event; two key-downs in a row leave two consecutive \<^verbatim>\<open>down\<close>
  events for the key at the end of the sequence.
\<close>

theorem handleDown_records_repeats:
  assumes "isRecording s" and "KEY_TO_OFFSET (toUpperCase k) \<noteq> None"
  shows "(\<exists>t. recording (handleDown k c1 c2 s) =
            recording s @
              [\<lparr> ev_key = toUpperCase k, ev_type = Down, ev_t = t, ev_scheduled = None \<rparr>])
         \<and> (map_of (activeVoices s) (toUpperCase k) \<noteq> None \<longrightarrow>
              activeVoices (handleDown k c1 c2 s) = activeVoices s
              \<and> heap (handleDown k c1 c2 s) = heap s)
         \<and> (\<exists>t t'. recording (handleDown k c3 c4 (handleDown k c1 c2 s)) =
              recording s @
                [\<lparr> ev_key = toUpperCase k, ev_type = Down, ev_t = t, ev_scheduled = None \<rparr>,
                 \<lparr> ev_key = toUpperCase k, ev_type = Down, ev_t = t', ev_scheduled = None \<rparr>])"
proof -
  let ?K = "toUpperCase k"
  have down: "handleDown k c c' u = pushRecord ?K Down c c' (startNote ?K u)"
    if "isRecording u" for c c' u
    using that by (simp add: handleDown_mapped [OF assms(2)])
  have one: "\<exists>t. recording (handleDown k c c' u) =
            recording u @ [\<lparr> ev_key = ?K, ev_type = Down, ev_t = t, ev_scheduled = None \<rparr>]"
    if "isRecording u" for c c' u
    using pushRecord_event [of ?K Down c c' "startNote ?K u"]
    by (simp add: down [OF that] startNote_recorder toUpperCase_idem)
  have rec: "isRecording (handleDown k c1 c2 s)"
    using assms(1) by (simp add: down pushRecord_frame startNote_recorder)
  have a: "\<exists>t. recording (handleDown k c1 c2 s) =
            recording s @ [\<lparr> ev_key = ?K, ev_type = Down, ev_t = t, ev_scheduled = None \<rparr>]"
    using one [OF assms(1)] .
  have b: "activeVoices (handleDown k c1 c2 s) = activeVoices s
           \<and> heap (handleDown k c1 c2 s) = heap s"
    if "map_of (activeVoices s) ?K \<noteq> None"
  proof -
    from that have "startNote ?K s = s"
      by (simp add: startNote_active toUpperCase_idem)
    then show ?thesis
      using assms(1) by (simp add: down pushRecord_frame)
  qed
  from a obtain t where t: "recording (handleDown k c1 c2 s) =
      recording s @ [\<lparr> ev_key = ?K, ev_type = Down, ev_t = t, ev_scheduled = None \<rparr>]" ..
  from one [OF rec, of c3 c4] obtain t' where
    "recording (handleDown k c3 c4 (handleDown k c1 c2 s)) =
       recording (handleDown k c1 c2 s) @
         [\<lparr> ev_key = ?K, ev_type = Down, ev_t = t', ev_scheduled = None \<rparr>]" ..
  with t have c: "\<exists>t t'. recording (handleDown k c3 c4 (handleDown k c1 c2 s)) =
       recording s @ [\<lparr> ev_key = ?K, ev_type = Down, ev_t = t, ev_scheduled = None \<rparr>,
                      \<lparr> ev_key = ?K, ev_type = Down, ev_t = t', ev_scheduled = None \<rparr>]"
    by simp
  from a b c show ?thesis by blast
qed

lemma recording_held_eval:
  "isRecording recording_held \<and> recording recording_held = []
   \<and> activeVoices recording_held = [(''A'', 0)]"
  by (simp add: recording_held_def startRecording_def one_note_eval)

theorem handleDown_records_repeats_witness:
  "isRecording recording_held
   \<and> KEY_TO_OFFSET (toUpperCase ''a'') \<noteq> None
   \<and> map_of (activeVoices recording_held) (toUpperCase ''a'') \<noteq> None
   \<and> activeVoices (handleDown ''a'' 1000 1000 recording_held) = [(''A'', 0)]
   \<and> (\<exists>t t'. recording (handleDown ''a'' 1030 1030 (handleDown ''a'' 1000 1000 recording_held)) =
         [\<lparr> ev_key = ''A'', ev_type = Down, ev_t = t, ev_scheduled = None \<rparr>,
          \<lparr> ev_key = ''A'', ev_type = Down, ev_t = t', ev_scheduled = None \<rparr>])"
proof -
  have h1: "isRecording recording_held"
    by (simp add: recording_held_eval)
  have h2: "KEY_TO_OFFSET (toUpperCase ''a'') \<noteq> None"
    by (simp add: offset_a)
  have h3: "map_of (activeVoices recording_held) (toUpperCase ''a'') \<noteq> None"
    by (simp add: recording_held_eval toUpperCase_a)
  from handleDown_records_repeats [OF h1 h2, of 1000 1000 1030 1030] h3
  have "activeVoices (handleDown ''a'' 1000 1000 recording_held) = activeVoices recording_held
    \<and> (\<exists>t t'. recording (handleDown ''a'' 1030 1030 (handleDown ''a'' 1000 1000 recording_held)) =
         recording recording_held @
         [\<lparr> ev_key = toUpperCase ''a'', ev_type = Down, ev_t = t, ev_scheduled = None \<rparr>,
          \<lparr> ev_key = toUpperCase ''a'', ev_type = Down, ev_t = t', ev_scheduled = None \<rparr>])"
    by blast
  with h1 h2 h3 show ?thesis
    by (simp add: recording_held_eval toUpperCase_a)
qed

subsection \<open>Playback\<close>

lemma dispatch_due_log:
  "list_all (\<lambda>d. fst d = now \<and> ev_t (snd d) \<le> now + 5) (fst (dispatch_due now evs s))"
  by (induction now evs s rule: dispatch_due.induct) (auto simp: Let_def case_prod_beta)

lemma dispatch_due_length:
  "length (fst (snd (dispatch_due now evs s))) = length evs"
  by (induction now evs s rule: dispatch_due.induct) (auto simp: Let_def case_prod_beta)

lemma sched_log:
  "list_all (\<lambda>d. fst d = now \<and> ev_t (snd d) \<le> now + 5) (fst (sched now s))"
  using dispatch_due_log [of now "map init_flag (recording s)" s]
  by (simp add: sched_def Let_def case_prod_beta)

lemma sched_length:
  "length (recording (snd (snd (sched now s)))) = length (recording s)"
  using dispatch_due_length [of now "map init_flag (recording s)" s]
  by (simp add: sched_def Let_def case_prod_beta)

lemma frames_log:
  "list_all (\<lambda>d. ev_t (snd d) \<le> fst d + 5 \<and> fst d \<in> (\<lambda>c. c - start) ` set cs)
     (fst (frames start cs s))"
proof (induction cs arbitrary: s)
  case Nil
  then show ?case by simp
next
  case (Cons c cs)
  obtain dlog rearm s1 where sc: "sched (c - start) s = (dlog, rearm, s1)"
    by (cases "sched (c - start) s") auto
  from sched_log [of "c - start" s] sc
  have "list_all (\<lambda>d. fst d = c - start \<and> ev_t (snd d) \<le> c - start + 5) dlog"
    by simp
  then have here: "list_all (\<lambda>d. ev_t (snd d) \<le> fst d + 5
                       \<and> fst d \<in> (\<lambda>c. c - start) ` set (c # cs)) dlog"
    by (auto simp: list_all_iff)
  have "list_all (\<lambda>d. ev_t (snd d) \<le> fst d + 5 \<and> fst d \<in> (\<lambda>c. c - start) ` set cs)
          (fst (frames start cs s1))"
    by (rule Cons.IH)
  then have later: "list_all (\<lambda>d. ev_t (snd d) \<le> fst d + 5
                        \<and> fst d \<in> (\<lambda>c. c - start) ` set (c # cs))
                      (fst (frames start cs s1))"
    by (auto simp: list_all_iff)
  from here later show ?case
    by (simp add: sc case_prod_beta)
qed

lemma frames_length:
  "length (recording (snd (frames start cs s))) = length (recording s)"
proof (induction cs arbitrary: s)
  case Nil
  then show ?case by simp
next
  case (Cons c cs)
  obtain dlog rearm s1 where sc: "sched (c - start) s = (dlog, rearm, s1)"
    by (cases "sched (c - start) s") auto
  from sched_length [of "c - start" s] sc
  have "length (recording s1) = length (recording s)" by simp
  with Cons.IH [of s1] show ?case
    by (simp add: sc case_prod_beta)
qed

text \<open>
  C2, as the code has it. Every dispatch that \<open>playRecording\<close> issues happens in a
  pass whose elapsed time \<open>now\<close> (the clock reading of the pass minus the clock reading
  at the start of playback, line 272) satisfies \<open>t \<le> now + 5\<close> for the event's recorded
  offset \<open>t\<close>: an event is dispatched at most 5 milliseconds before its offset.
\<close>

theorem playRecording_at_most_5ms_early:
  "list_all (\<lambda>d. ev_t (snd d) \<le> fst d + 5 \<and> fst d \<in> (\<lambda>c. c - start) ` set (c0 # cs))
     (fst (playRecording start c0 cs s))"
  using frames_log [of start "c0 # cs" s]
  by (simp add: playRecording_def del: frames.simps)

lemmas play_defs = playRecording_def sched_def init_flag_def falsy_def Let_def case_prod_beta
  startNote_def stopNote_def keyToMidi_def KEY_TO_OFFSET_def highlightKey_def ensureAudio_def
  Voice_release_def new_Voice_def stopRecording_def startRecording_def pushRecord_def
  initial_def toUpperCase_a toUpperCase_A

lemma held_take_eval:
  "recording held_take =
     [\<lparr> ev_key = ''A'', ev_type = Down, ev_t = 0, ev_scheduled = None \<rparr>,
      \<lparr> ev_key = ''A'', ev_type = Up, ev_t = 1000, ev_scheduled = None \<rparr>]"
  by (simp add: held_take_def play_defs)

lemma held_take_play:
  "fst (playRecording 5000 5000 [5996] held_take) =
     [(0, \<lparr> ev_key = ''A'', ev_type = Down, ev_t = 0, ev_scheduled = Some False \<rparr>),
      (996, \<lparr> ev_key = ''A'', ev_type = Up, ev_t = 1000, ev_scheduled = Some False \<rparr>)]"
  by (simp add: held_take_def play_defs)

lemma held_take_played_eval:
  "recording held_take_played =
     [\<lparr> ev_key = ''A'', ev_type = Down, ev_t = 0, ev_scheduled = Some True \<rparr>,
      \<lparr> ev_key = ''A'', ev_type = Up, ev_t = 1000, ev_scheduled = Some True \<rparr>]"
  by (simp add: held_take_played_def held_take_def play_defs)

theorem playRecording_at_most_5ms_early_witness:
  "fst (playRecording 5000 5000 [5996] held_take) =
     [(0, \<lparr> ev_key = ''A'', ev_type = Down, ev_t = 0, ev_scheduled = Some False \<rparr>),
      (996, \<lparr> ev_key = ''A'', ev_type = Up, ev_t = 1000, ev_scheduled = Some False \<rparr>)]
   \<and> list_all (\<lambda>d. ev_t (snd d) \<le> fst d + 5
                  \<and> fst d \<in> (\<lambda>c. c - 5000) ` set [5000, 5996])
       (fst (playRecording 5000 5000 [5996] held_take))"
  using playRecording_at_most_5ms_early [of 5000 5000 "[5996]" held_take] held_take_play
  by simp

text \<open>
  The specification allows no early dispatch. In the playback of \<open>held_take\<close> the
  second pass runs at elapsed time 996 and issues the key-up that was recorded at
  offset 1000.
\<close>

theorem dispatch_before_offset:
  "fst (fst (playRecording 5000 5000 [5996] held_take) ! 1) = 996
   \<and> ev_type (snd (fst (playRecording 5000 5000 [5996] held_take) ! 1)) = Up
   \<and> ev_t (snd (fst (playRecording 5000 5000 [5996] held_take) ! 1)) = 1000
   \<and> \<not> ev_t (snd (fst (playRecording 5000 5000 [5996] held_take) ! 1))
         \<le> fst (fst (playRecording 5000 5000 [5996] held_take) ! 1)"
  by (simp add: held_take_play)

subsection \<open>Playing a recording again\<close>

lemma init_flag_done:
  "list_all (\<lambda>ev. ev_scheduled ev = Some True) evs \<Longrightarrow> map init_flag evs = evs"
  by (induction evs) (simp_all add: init_flag_def falsy_def)

lemma dispatch_due_done:
  "list_all (\<lambda>ev. ev_scheduled ev = Some True) evs \<Longrightarrow> dispatch_due now evs s = ([], evs, s)"
  by (induction evs) (simp_all add: falsy_def)

lemma sched_done:
  assumes "list_all (\<lambda>ev. ev_scheduled ev = Some True) (recording s)"
  shows "sched now s = ([], False, s)"
proof -
  have "\<not> list_ex (\<lambda>ev. falsy (ev_scheduled ev)) (recording s)"
    using assms by (simp add: list_all_iff list_ex_iff falsy_def)
  then show ?thesis
    by (simp add: sched_def init_flag_done [OF assms] dispatch_due_done [OF assms])
qed

text \<open>
  C9. When one call of \<open>playRecording\<close> on a non-empty recording has left every event
  marked as scheduled, a second call on the resulting state, at any clock readings,
  dispatches nothing and changes nothing: the recording is still non-empty, the first
  pass finds every flag set, issues no \<open>startNote\<close> or \<open>stopNote\<close> and asks for no
  further frame.
\<close>

theorem playRecording_single_shot:
  assumes "recording s \<noteq> []"
      and "playRecording start c0 cs s = (dlog, s1)"
      and "list_all (\<lambda>ev. ev_scheduled ev = Some True) (recording s1)"
  shows "recording s1 \<noteq> [] \<and> playRecording start' c0' cs' s1 = ([], s1)"
proof -
  from assms(1,2) have "s1 = snd (frames start (c0 # cs) s)"
    by (simp add: playRecording_def del: frames.simps)
  then have "length (recording s1) = length (recording s)"
    by (simp only: frames_length)
  with assms(1) have ne: "recording s1 \<noteq> []"
    by auto
  have "frames start' (c0' # cs') s1 = ([], s1)"
    by (simp add: sched_done [OF assms(3)])
  with ne show ?thesis
    by (simp add: playRecording_def del: frames.simps)
qed

theorem playRecording_single_shot_witness:
  "recording held_take \<noteq> []
   \<and> playRecording 5000 5000 [5996] held_take
       = (fst (playRecording 5000 5000 [5996] held_take), held_take_played)
   \<and> length (fst (playRecording 5000 5000 [5996] held_take)) = 2
   \<and> list_all (\<lambda>ev. ev_scheduled ev = Some True) (recording held_take_played)
   \<and> playRecording 9000 9000 [9016, 9033] held_take_played = ([], held_take_played)"
proof -
  have h1: "recording held_take \<noteq> []"
    by (simp add: held_take_eval)
  have h2: "playRecording 5000 5000 [5996] held_take
              = (fst (playRecording 5000 5000 [5996] held_take), held_take_played)"
    by (simp add: held_take_played_def)
  have h3: "list_all (\<lambda>ev. ev_scheduled ev = Some True) (recording held_take_played)"
    by (simp add: held_take_played_eval)
  have n: "length (fst (playRecording 5000 5000 [5996] held_take)) = 2"
    by (simp add: held_take_play)
  from playRecording_single_shot [OF h1 h2 h3, of 9000 9000 "[9016, 9033]"] h1 h2 h3 n
  show ?thesis by blast
qed

end
